theory Spec2Isabelle
  imports Complex_Main "HOL-Library.Word" "HOL-Library.Option_ord" "HOL-Library.Log_Nat"
begin

unbundle bit_operations_syntax

chapter \<open>A quantized tensor compute backend: kernels, dispatch and the device buffer pool\<close>

text \<open>
  The definitions below transcribe functions of \<^verbatim>\<open>ggml-sycl.cpp\<close> and
  \<^verbatim>\<open>ggml-sycl/vecdotq.hpp\<close>. The first part of the theory holds the model, the second part
  the properties proved about it.
\<close>

section \<open>Binary floating-point rounding\<close>

text \<open>
  Where the outcome of a computation depends on the rounding of \<^verbatim>\<open>float\<close> (binary32) or
  \<^verbatim>\<open>sycl::half\<close> (binary16) arithmetic, an operation is modelled by the exact operation on the
  real numbers followed by the rounding to the format: to the nearest value of the format, a tie
  to the value with the even significand.
\<close>

text \<open>The rounding of a real number to the nearest integer, a tie to the even one.\<close>

definition round_nearest_even :: "real \<Rightarrow> int" where
  "round_nearest_even x =
     (let q = \<lfloor>x\<rfloor>; r = x - of_int q
      in if r > 1 / 2 then q + 1 else if r = 1 / 2 \<and> odd q then q + 1 else q)"

text \<open>
  The rounding to a binary format of \<open>p\<close> significant bits whose least subnormal value is
  \<open>2 ^ emin\<close>: the value is rounded to a multiple of the unit in the last place of its binade, which
  is never below \<open>2 ^ emin\<close>. Results beyond the largest finite value of the format stand for an
  infinity; \<open>to_float\<close> and \<open>to_half\<close> return \<open>None\<close> for them.
\<close>

definition round_float :: "nat \<Rightarrow> int \<Rightarrow> real \<Rightarrow> real" where
  "round_float p emin v =
     (if v = 0 then 0
      else let e = max (\<lfloor>log 2 \<bar>v\<bar>\<rfloor> - (int p - 1)) emin;
               u = 2 powi e
           in of_int (round_nearest_even (v / u)) * u)"

text \<open>binary32: 24 significant bits, least subnormal \<open>2 ^ -149\<close>, largest value \<open>(2 ^ 24 - 1) * 2 ^ 104\<close>.\<close>

definition float32 :: "real \<Rightarrow> real" where
  "float32 v = round_float 24 (- 149) v"

definition FLT_MAX :: real where
  "FLT_MAX = (2 ^ 24 - 1) * 2 ^ 104"

definition to_float :: "real \<Rightarrow> real option" where
  "to_float v = (if \<bar>float32 v\<bar> > FLT_MAX then None else Some (float32 v))"

text \<open>binary16: 11 significant bits, least subnormal \<open>2 ^ -24\<close>, largest value 65504.\<close>

definition float16 :: "real \<Rightarrow> real" where
  "float16 v = round_float 11 (- 24) v"

definition to_half :: "real \<Rightarrow> real option" where
  "to_half v = (if \<bar>float16 v\<bar> > 65504 then None else Some (float16 v))"

text \<open>
  A \<^verbatim>\<open>float\<close> that may have left the finite values is a \<^typ>\<open>real option\<close>: \<open>None\<close> stands for an
  infinity or a NaN, and an addition with such an operand gives such a result.
\<close>

definition fadd :: "real option \<Rightarrow> real option \<Rightarrow> real option" where
  "fadd a b = (case (a, b) of (Some x, Some y) \<Rightarrow> to_float (x + y) | _ \<Rightarrow> None)"


section \<open>Sub-group shuffle reductions\<close>

text \<open>
  The kernels of \<^verbatim>\<open>ggml-sycl.cpp\<close> run in sub-groups of \<open>WARP_SIZE\<close> lanes that execute in
  lockstep. A per-lane register is modelled as a function from the lane id to the value the lane
  holds. A value of type \<^verbatim>\<open>float\<close> is modelled by the number it stands for (\<^typ>\<open>real\<close>). The
  operations on such values are exact, except in the row split and in the quantization to Q8_1,
  whose operations round as the section above describes.
\<close>

text \<open>
  Modelled from the spec: the macro \<^verbatim>\<open>WARP_SIZE\<close> is declared in a header that is not part of
  the sources at hand; the spec fixes the width of the SIMD group to 32 lanes.
\<close>

definition WARP_SIZE :: nat where
  "WARP_SIZE = 32"

text \<open>
  Modelled from the spec: \<^verbatim>\<open>dpct::permute_sub_group_by_xor\<close> is the XOR shuffle of the SYCL
  compatibility library: the lane \<open>lid\<close> reads the value held by the lane whose id is
  \<open>lid XOR msk\<close> inside its logical group of \<open>WARP_SIZE\<close> lanes, and its own value when that
  lane would lie outside of the group.
\<close>

definition permute_sub_group_by_xor :: "(nat \<Rightarrow> 'a) \<Rightarrow> nat \<Rightarrow> nat \<Rightarrow> 'a" where
  "permute_sub_group_by_xor x msk lid =
     (let start_index = lid div WARP_SIZE * WARP_SIZE;
          target_offset = (lid mod WARP_SIZE) XOR msk
      in x (if target_offset < WARP_SIZE then start_index + target_offset else lid))"

text \<open>
  One exchange step of a reduction: every lane combines its value with the value shuffled in
  from its partner lane.
\<close>

definition xor_step :: "('a \<Rightarrow> 'a \<Rightarrow> 'a) \<Rightarrow> nat \<Rightarrow> (nat \<Rightarrow> 'a) \<Rightarrow> nat \<Rightarrow> 'a" where
  "xor_step f msk x = (\<lambda>lid. f (x lid) (permute_sub_group_by_xor x msk lid))"

text \<open>
  \<^verbatim>\<open>warp_reduce_sum\<close>: \<^verbatim>\<open>for (int mask = 16; mask > 0; mask >>= 1) x += permute(x, mask)\<close>.
\<close>

function warp_reduce_sum_loop :: "nat \<Rightarrow> (nat \<Rightarrow> 'a::plus) \<Rightarrow> nat \<Rightarrow> 'a" where
  "warp_reduce_sum_loop msk x =
     (if msk > 0
      then warp_reduce_sum_loop (drop_bit 1 msk) (\<lambda>lid. x lid + permute_sub_group_by_xor x msk lid)
      else x)"
  by pat_completeness auto
termination
  by (relation "measure (\<lambda>(msk, x). msk)") (auto simp: drop_bit_eq_div)

declare warp_reduce_sum_loop.simps [simp del]

definition warp_reduce_sum :: "(nat \<Rightarrow> 'a::plus) \<Rightarrow> nat \<Rightarrow> 'a" where
  "warp_reduce_sum x = warp_reduce_sum_loop 16 x"

text \<open>
  \<^verbatim>\<open>warp_reduce_max\<close>: the same loop with \<^verbatim>\<open>x = sycl::fmax(x, permute(x, mask))\<close>.
\<close>

function warp_reduce_max_loop :: "nat \<Rightarrow> (nat \<Rightarrow> 'a::linorder) \<Rightarrow> nat \<Rightarrow> 'a" where
  "warp_reduce_max_loop msk x =
     (if msk > 0
      then warp_reduce_max_loop (drop_bit 1 msk) (\<lambda>lid. max (x lid) (permute_sub_group_by_xor x msk lid))
      else x)"
  by pat_completeness auto
termination
  by (relation "measure (\<lambda>(msk, x). msk)") (auto simp: drop_bit_eq_div)

declare warp_reduce_max_loop.simps [simp del]

definition warp_reduce_max :: "(nat \<Rightarrow> 'a::linorder) \<Rightarrow> nat \<Rightarrow> 'a" where
  "warp_reduce_max x = warp_reduce_max_loop 16 x"

text \<open>
  The lanes that agree with lane \<open>l\<close> on every bit from position \<open>k\<close> upwards: the aligned
  block of \<open>2 ^ k\<close> lanes around \<open>l\<close>. It is used to state what the butterfly has gathered
  after each step.
\<close>

definition lane_block :: "nat \<Rightarrow> nat \<Rightarrow> nat set" where
  "lane_block k l = {j. \<forall>n\<ge>k. bit j n = bit l n}"

section \<open>Fatal preconditions\<close>

text \<open>
  \<^verbatim>\<open>GGML_ASSERT\<close> aborts the process when its condition is false, and a SYCL exception caught at
  the boundary of a device-facing function ends it with \<^verbatim>\<open>std::exit(1)\<close>. Both are values of the
  model: a function that can abort returns \<open>Inl\<close> of the reason.
\<close>

datatype fatal = GGML_ASSERT_failed | Exception_exit

section \<open>Argsort launcher\<close>

text \<open>
  Modelled from the spec: \<^verbatim>\<open>enum ggml_sort_order\<close> is declared in \<^verbatim>\<open>ggml.h\<close>, which is not part
  of the sources at hand; the order is ascending or descending.
\<close>

datatype ggml_sort_order = GGML_SORT_ORDER_ASC | GGML_SORT_ORDER_DESC

text \<open>
  What \<^verbatim>\<open>stream->parallel_for\<close> is asked to run: the kernel \<^verbatim>\<open>k_argsort_f32_i32<order>\<close> with
  its sort order, the \<^verbatim>\<open>int\<close> argument \<^verbatim>\<open>ncols\<close>, and the two ranges of the launch. The
  components of a \<^verbatim>\<open>sycl::range<3>\<close> are of type \<^verbatim>\<open>size_t\<close>.
\<close>

record argsort_launch =
  kernel_order :: ggml_sort_order
  kernel_ncols :: "32 word"
  block_dims :: "64 word \<times> 64 word \<times> 64 word"
  block_nums :: "64 word \<times> 64 word \<times> 64 word"

text \<open>
  \<^verbatim>\<open>argsort_f32_i32_sycl\<close>. The arguments \<^verbatim>\<open>ncols\<close> and \<^verbatim>\<open>nrows\<close> are of type \<^verbatim>\<open>int\<close>. The
  final \<^verbatim>\<open>else { GGML_ASSERT(false); }\<close> of the source is taken by no value of the enumeration.
\<close>

definition argsort_f32_i32_sycl ::
    "32 word \<Rightarrow> 32 word \<Rightarrow> ggml_sort_order \<Rightarrow> fatal + argsort_launch" where
  "argsort_f32_i32_sycl ncols nrows order =
     (if (ncols AND (ncols - 1)) \<noteq> 0 then Inl GGML_ASSERT_failed
      else Inr \<lparr> kernel_order = order, kernel_ncols = ncols,
                 block_dims = (1, 1, scast ncols),
                 block_nums = (1, scast nrows, 1) \<rparr>)"

text \<open>The row lengths the comment in the source asks for: the powers of two an \<^verbatim>\<open>int\<close> can hold.\<close>

definition is_power_of_two :: "int \<Rightarrow> bool" where
  "is_power_of_two n = (n \<in> set (map (\<lambda>k. 2 ^ k) [0..<31]))"


section \<open>The device buffer pool\<close>

definition MAX_SYCL_BUFFERS :: nat where
  "MAX_SYCL_BUFFERS = 256"

text \<open>
  \<^verbatim>\<open>struct sycl_buffer { void * ptr = nullptr; size_t size = 0; }\<close>. A pointer is an address,
  \<open>0\<close> is \<^verbatim>\<open>nullptr\<close>; a \<^verbatim>\<open>size_t\<close> is a natural number below \<open>2 ^ 64\<close>, and the wrap-around
  is written out where the source adds or subtracts.
\<close>

record sycl_buffer =
  ptr :: nat
  size_b :: nat

definition empty_buffer :: sycl_buffer where
  "empty_buffer = \<lparr> ptr = 0, size_b = 0 \<rparr>"

text \<open>
  The calls made to the device runtime, in the order they are made: the pool is a cache in
  front of \<^verbatim>\<open>sycl::malloc_device\<close> and \<^verbatim>\<open>sycl::free\<close>.
\<close>

datatype device_call = Malloc_device nat nat | Free_device nat

text \<open>
  The global tables \<^verbatim>\<open>g_sycl_buffer_pool[GGML_SYCL_MAX_DEVICES][MAX_SYCL_BUFFERS]\<close> and
  \<^verbatim>\<open>g_sycl_pool_size[GGML_SYCL_MAX_DEVICES]\<close>, indexed by the device and by the slot, and
  the log of the calls to the runtime.
\<close>

record pool_state =
  g_sycl_buffer_pool :: "nat \<Rightarrow> nat \<Rightarrow> sycl_buffer"
  g_sycl_pool_size :: "nat \<Rightarrow> nat"
  device_calls :: "device_call list"

text \<open>
  The literal \<^verbatim>\<open>1.05\<close> and the product \<^verbatim>\<open>1.05 * size\<close> are of type \<^verbatim>\<open>double\<close>. The binary64
  arithmetic is modelled on scaled integers: \<open>round_to_53 n\<close> rounds \<open>n\<close> to 53 significant
  bits, ties to even; the literal is \<open>4728779608739021 / 2 ^ 52\<close>; the conversion of \<^verbatim>\<open>size\<close>
  to \<^verbatim>\<open>double\<close> rounds it, the product is rounded once more, and the cast to \<^verbatim>\<open>size_t\<close>
  drops the fraction.
\<close>

fun bit_length :: "nat \<Rightarrow> nat" where
  "bit_length n = (if n = 0 then 0 else Suc (bit_length (n div 2)))"

declare bit_length.simps [simp del]

definition round_to_53 :: "nat \<Rightarrow> nat" where
  "round_to_53 n =
     (if bit_length n \<le> 53 then n
      else let e = bit_length n - 53;
               q = n div 2 ^ e;
               r = n mod 2 ^ e;
               h = 2 ^ (e - 1)
           in (if r > h \<or> (r = h \<and> odd q) then q + 1 else q) * 2 ^ e)"

definition double_1_05_times :: "nat \<Rightarrow> nat" where
  "double_1_05_times sz = round_to_53 (4728779608739021 * round_to_53 sz) div 2 ^ 52"

text \<open>
  \<^verbatim>\<open>look_ahead_size = (size_t) (1.05 * size); look_ahead_size = 256 * ((look_ahead_size + 255)/256);\<close>
\<close>

definition look_ahead_size :: "nat \<Rightarrow> nat" where
  "look_ahead_size sz =
     (let look_ahead = double_1_05_times sz mod 2 ^ 64
      in (256 * (((look_ahead + 255) mod 2 ^ 64) div 256)) mod 2 ^ 64)"

text \<open>
  The scan of \<^verbatim>\<open>ggml_sycl_pool_malloc_leg\<close> over the slots \<open>i, i + 1, \<dots>\<close> of one device. It
  ends early with \<open>Scan_return i\<close> at the first buffer that fits exactly, and otherwise with
  the values of \<^verbatim>\<open>best_diff\<close> and \<^verbatim>\<open>ibest\<close> after the last slot.
\<close>

datatype scan_result = Scan_return nat | Scan_done nat int

function pool_scan :: "(nat \<Rightarrow> sycl_buffer) \<Rightarrow> nat \<Rightarrow> nat \<Rightarrow> nat \<Rightarrow> int \<Rightarrow> scan_result" where
  "pool_scan pool sz i best_diff ibest =
     (if i < MAX_SYCL_BUFFERS then
        (let b = pool i in
         if ptr b \<noteq> 0 then
           (if size_b b \<ge> sz then
              (let diff = size_b b - sz in
               if diff < best_diff then
                 (if diff = 0 then Scan_return i
                  else pool_scan pool sz (i + 1) diff (int i))
               else pool_scan pool sz (i + 1) best_diff ibest)
            else pool_scan pool sz (i + 1) best_diff ibest)
         else pool_scan pool sz (i + 1) best_diff ibest)
      else Scan_done best_diff ibest)"
  by pat_completeness auto
termination
  by (relation "measure (\<lambda>(pool, sz, i, best_diff, ibest). MAX_SYCL_BUFFERS - i)") auto

declare pool_scan.simps [simp del]

text \<open>Taking the buffer of a slot out of the pool: the slot is left empty.\<close>

definition take_slot :: "nat \<Rightarrow> nat \<Rightarrow> pool_state \<Rightarrow> nat \<times> nat \<times> pool_state" where
  "take_slot device_index i st =
     (let b = g_sycl_buffer_pool st device_index i
      in (ptr b, size_b b,
          st\<lparr> g_sycl_buffer_pool :=
                (g_sycl_buffer_pool st)(device_index := (g_sycl_buffer_pool st device_index)(i := empty_buffer)) \<rparr>))"

text \<open>
  \<^verbatim>\<open>ggml_sycl_pool_malloc_leg(device_index, size, actual_size)\<close>. The first argument is what
  \<^verbatim>\<open>sycl::malloc_device\<close> does if it is called: it returns a pointer, or it throws, and then
  the \<^verbatim>\<open>catch\<close> clause ends the process. The result is the returned pointer, the value stored
  to \<^verbatim>\<open>*actual_size\<close>, and the new state.
\<close>

definition ggml_sycl_pool_malloc_leg ::
    "nat option \<Rightarrow> nat \<Rightarrow> nat \<Rightarrow> pool_state \<Rightarrow> fatal + (nat \<times> nat \<times> pool_state)" where
  "ggml_sycl_pool_malloc_leg malloc_device device_index sz st =
     (case pool_scan (g_sycl_buffer_pool st device_index) sz 0 (2 ^ 36) (- 1) of
        Scan_return i \<Rightarrow> Inr (take_slot device_index i st)
      | Scan_done best_diff ibest \<Rightarrow>
          if ibest \<ge> 0 then Inr (take_slot device_index (nat ibest) st)
          else (case malloc_device of
                  None \<Rightarrow> Inl Exception_exit
                | Some p \<Rightarrow>
                    Inr (p, look_ahead_size sz,
                         st\<lparr> g_sycl_pool_size :=
                               (g_sycl_pool_size st)(device_index :=
                                  (g_sycl_pool_size st device_index + look_ahead_size sz) mod 2 ^ 64),
                             device_calls := device_calls st @ [Malloc_device (look_ahead_size sz) p] \<rparr>)))"

text \<open>
  The scan of \<^verbatim>\<open>ggml_sycl_pool_free_leg\<close> for the first slot whose pointer is \<^verbatim>\<open>nullptr\<close>.
\<close>

function first_empty_slot :: "(nat \<Rightarrow> sycl_buffer) \<Rightarrow> nat \<Rightarrow> nat option" where
  "first_empty_slot pool i =
     (if i < MAX_SYCL_BUFFERS then
        (if ptr (pool i) = 0 then Some i else first_empty_slot pool (i + 1))
      else None)"
  by pat_completeness auto
termination
  by (relation "measure (\<lambda>(pool, i). MAX_SYCL_BUFFERS - i)") auto

declare first_empty_slot.simps [simp del]

text \<open>
  \<^verbatim>\<open>ggml_sycl_pool_free_leg(device_index, ptr, size)\<close>. The first argument tells whether
  \<^verbatim>\<open>sycl::free\<close> throws if it is called.
\<close>

definition ggml_sycl_pool_free_leg ::
    "bool \<Rightarrow> nat \<Rightarrow> nat \<Rightarrow> nat \<Rightarrow> pool_state \<Rightarrow> fatal + pool_state" where
  "ggml_sycl_pool_free_leg free_throws device_index p sz st =
     (case first_empty_slot (g_sycl_buffer_pool st device_index) 0 of
        Some i \<Rightarrow>
          Inr (st\<lparr> g_sycl_buffer_pool :=
                    (g_sycl_buffer_pool st)(device_index :=
                       (g_sycl_buffer_pool st device_index)(i := \<lparr> ptr = p, size_b = sz \<rparr>)) \<rparr>)
      | None \<Rightarrow>
          if free_throws then Inl Exception_exit
          else Inr (st\<lparr> g_sycl_pool_size :=
                         (g_sycl_pool_size st)(device_index :=
                            (g_sycl_pool_size st device_index + 2 ^ 64 - sz mod 2 ^ 64) mod 2 ^ 64),
                       device_calls := device_calls st @ [Free_device p] \<rparr>))"

text \<open>
  The destructor of \<^verbatim>\<open>sycl_pool_alloc\<close> gives a buffer back with the size that the allocation
  stored to \<^verbatim>\<open>actual_size\<close>, and only when the pointer is not \<^verbatim>\<open>nullptr\<close>. The number of fresh
  device allocations made so far is read off the log.
\<close>

definition malloc_device_count :: "pool_state \<Rightarrow> nat" where
  "malloc_device_count st = length (filter (\<lambda>c. case c of Malloc_device _ _ \<Rightarrow> True | Free_device _ \<Rightarrow> False) (device_calls st))"

text \<open>
  A resident buffer of the slot \<open>j\<close> fits a request when it is at least as large; its surplus
  is what it has beyond the request.
\<close>

definition fits :: "(nat \<Rightarrow> sycl_buffer) \<Rightarrow> nat \<Rightarrow> nat \<Rightarrow> bool" where
  "fits pool sz j = (ptr (pool j) \<noteq> 0 \<and> sz \<le> size_b (pool j))"

definition surplus :: "(nat \<Rightarrow> sycl_buffer) \<Rightarrow> nat \<Rightarrow> nat \<Rightarrow> nat" where
  "surplus pool sz j = size_b (pool j) - sz"

text \<open>The loop invariant of the scan, and what it has established when it ends.\<close>

definition scan_inv :: "(nat \<Rightarrow> sycl_buffer) \<Rightarrow> nat \<Rightarrow> nat \<Rightarrow> nat \<Rightarrow> int \<Rightarrow> bool" where
  "scan_inv pool sz i best_diff ibest =
     ((ibest = - 1 \<and> best_diff = 2 ^ 36 \<and> (\<forall>j<i. fits pool sz j \<longrightarrow> 2 ^ 36 \<le> surplus pool sz j))
    \<or> (0 \<le> ibest \<and> nat ibest < i \<and> fits pool sz (nat ibest)
        \<and> surplus pool sz (nat ibest) = best_diff \<and> best_diff < 2 ^ 36
        \<and> (\<forall>j<i. fits pool sz j \<longrightarrow> best_diff \<le> surplus pool sz j)))"

definition scan_post :: "(nat \<Rightarrow> sycl_buffer) \<Rightarrow> nat \<Rightarrow> scan_result \<Rightarrow> bool" where
  "scan_post pool sz r =
     (case r of
        Scan_return k \<Rightarrow> k < MAX_SYCL_BUFFERS \<and> fits pool sz k \<and> surplus pool sz k = 0
      | Scan_done best_diff ibest \<Rightarrow> scan_inv pool sz MAX_SYCL_BUFFERS best_diff ibest)"

text \<open>
  The use that \<^verbatim>\<open>sycl_pool_alloc\<close> makes of the pool, followed by a second request: a buffer
  is allocated, its destructor releases it with the size stored to \<^verbatim>\<open>actual_size\<close> (when the
  pointer is not \<^verbatim>\<open>nullptr\<close>), and a buffer is allocated again. The result holds the two
  pointers and the number of device allocations before and after the second request.
\<close>

definition alloc_release_alloc ::
    "nat option \<Rightarrow> bool \<Rightarrow> nat option \<Rightarrow> nat \<Rightarrow> nat \<Rightarrow> nat \<Rightarrow> pool_state \<Rightarrow> fatal + (nat \<times> nat \<times> nat \<times> nat)" where
  "alloc_release_alloc md1 free_throws md2 device_index sz sz' st =
     (case ggml_sycl_pool_malloc_leg md1 device_index sz st of
        Inl e \<Rightarrow> Inl e
      | Inr (p, actual_size, st1) \<Rightarrow>
          (case (if p \<noteq> 0 then ggml_sycl_pool_free_leg free_throws device_index p actual_size st1 else Inr st1) of
             Inl e \<Rightarrow> Inl e
           | Inr st2 \<Rightarrow>
               (case ggml_sycl_pool_malloc_leg md2 device_index sz' st2 of
                  Inl e \<Rightarrow> Inl e
                | Inr (p', actual_size', st3) \<Rightarrow>
                    Inr (p, p', malloc_device_count st2, malloc_device_count st3))))"

text \<open>Pools for the examples: no buffer at all, and the given buffers in the given slots of device 0.\<close>

definition empty_pool_state :: pool_state where
  "empty_pool_state =
     \<lparr> g_sycl_buffer_pool = (\<lambda>d i. empty_buffer), g_sycl_pool_size = (\<lambda>d. 0), device_calls = [] \<rparr>"

definition pool_state_of :: "(nat \<times> sycl_buffer) list \<Rightarrow> pool_state" where
  "pool_state_of slots =
     \<lparr> g_sycl_buffer_pool =
         (\<lambda>d i. if d = 0 then (case map_of slots i of Some b \<Rightarrow> b | None \<Rightarrow> empty_buffer) else empty_buffer),
       g_sycl_pool_size = (\<lambda>d. if d = 0 then sum_list (map (\<lambda>(i, b). size_b b) slots) else 0),
       device_calls = map (\<lambda>(i, b). Malloc_device (size_b b) (ptr b)) slots \<rparr>"


text \<open>What the call returns when it asks the device: the outcome of \<^verbatim>\<open>sycl::malloc_device\<close>, recorded.\<close>

definition fresh_result :: "nat option \<Rightarrow> nat \<Rightarrow> nat \<Rightarrow> pool_state \<Rightarrow> fatal + (nat \<times> nat \<times> pool_state)" where
  "fresh_result malloc_device device_index sz st =
     (case malloc_device of
        None \<Rightarrow> Inl Exception_exit
      | Some p \<Rightarrow>
          Inr (p, look_ahead_size sz,
               st\<lparr> g_sycl_pool_size :=
                     (g_sycl_pool_size st)(device_index :=
                        (g_sycl_pool_size st device_index + look_ahead_size sz) mod 2 ^ 64),
                   device_calls := device_calls st @ [Malloc_device (look_ahead_size sz) p] \<rparr>))"

text \<open>Example states.\<close>

definition two_buffers :: pool_state where
  "two_buffers = pool_state_of [(0, \<lparr> ptr = 4096, size_b = 1024 \<rparr>), (3, \<lparr> ptr = 8192, size_b = 600 \<rparr>)]"

definition huge_buffer :: pool_state where
  "huge_buffer = pool_state_of [(0, \<lparr> ptr = 4096, size_b = 68719476752 \<rparr>)]"

definition parked_buffer :: pool_state where
  "parked_buffer = pool_state_of [(5, \<lparr> ptr = 4096, size_b = 68719480832 \<rparr>)]"

definition one_small :: pool_state where
  "one_small = pool_state_of [(0, \<lparr> ptr = 4096, size_b = 512 \<rparr>)]"


section \<open>Quantization of the activations to Q8_1\<close>

text \<open>
  Modelled from the spec: the block length \<^verbatim>\<open>QK8_1\<close> and the layout of \<^verbatim>\<open>block_q8_1\<close> are declared
  in a header that is not part of the sources at hand. A block groups 32 source elements and
  holds the pair \<^verbatim>\<open>ds\<close> (the scale \<open>d\<close> and the sum of the source elements) and one signed byte
  per element.
\<close>

definition QK8_1 :: nat where
  "QK8_1 = 32"

record block_q8_1 =
  ds :: "real \<times> real"
  qs8 :: "8 word list"

text \<open>
  The division \<^verbatim>\<open>xi / d\<close> of two \<^verbatim>\<open>float\<close> values: the quotient rounded to \<^verbatim>\<open>float\<close>, or \<open>None\<close>
  when the result is not a finite value: the divisor is zero (the quotient is an infinity, or a
  NaN when the dividend is zero too), or the quotient is beyond the largest \<^verbatim>\<open>float\<close>.
\<close>

definition fdiv :: "real \<Rightarrow> real \<Rightarrow> real option" where
  "fdiv a b = (if b = 0 then None else to_float (a / b))"

text \<open>\<^verbatim>\<open>sycl::round\<close> rounds to the nearest integer, halfway cases away from zero.\<close>

definition sycl_round :: "real \<Rightarrow> int" where
  "sycl_round v = (if 0 \<le> v then \<lfloor>v + 1 / 2\<rfloor> else - \<lfloor>- v + 1 / 2\<rfloor>)"

text \<open>
  The conversion of an integral \<^verbatim>\<open>float\<close> to \<^verbatim>\<open>int8_t\<close> in the initialisation of \<^verbatim>\<open>q\<close>: it is
  defined for the values that an \<^verbatim>\<open>int8_t\<close> holds, and undefined (\<open>None\<close>) for the others.
\<close>

definition float_to_int8 :: "int \<Rightarrow> 8 word option" where
  "float_to_int8 k = (if - 128 \<le> k \<and> k \<le> 127 then Some (word_of_int k) else None)"

text \<open>
  The value \<^verbatim>\<open>xi\<close> of the work-item of column \<open>ix\<close> in row \<open>iy\<close>:
  \<^verbatim>\<open>ix < kx ? x[iy*kx + ix] : 0.0f\<close>. The elements of \<open>x\<close> are finite values of type \<^verbatim>\<open>float\<close>.
\<close>

definition quantize_q8_1_xi :: "(nat \<Rightarrow> real) \<Rightarrow> nat \<Rightarrow> nat \<Rightarrow> nat \<Rightarrow> real" where
  "quantize_q8_1_xi x kx iy ix = (if ix < kx then x (iy * kx + ix) else 0)"

text \<open>
  The loop of \<^verbatim>\<open>quantize_q8_1\<close> that reduces \<^verbatim>\<open>amax\<close> and \<^verbatim>\<open>sum\<close> together over the sub-group.
  \<^verbatim>\<open>sycl::fmax\<close> returns one of its operands; the addition \<^verbatim>\<open>sum += \<dots>\<close> rounds, and overflows to an
  infinity.
\<close>

function quantize_q8_1_loop ::
    "nat \<Rightarrow> (nat \<Rightarrow> real) \<times> (nat \<Rightarrow> real option) \<Rightarrow> (nat \<Rightarrow> real) \<times> (nat \<Rightarrow> real option)" where
  "quantize_q8_1_loop msk (amax, sm) =
     (if msk > 0
      then quantize_q8_1_loop (drop_bit 1 msk)
             (\<lambda>lid. max (amax lid) (permute_sub_group_by_xor amax msk lid),
              \<lambda>lid. fadd (sm lid) (permute_sub_group_by_xor sm msk lid))
      else (amax, sm))"
  by pat_completeness auto
termination
  by (relation "measure (\<lambda>(msk, r). msk)") (auto simp: drop_bit_eq_div)

declare quantize_q8_1_loop.simps [simp del]

text \<open>
  What one work-item of \<^verbatim>\<open>quantize_q8_1\<close> stores: the code \<^verbatim>\<open>q\<close> to \<^verbatim>\<open>y[ib].qs[iqs]\<close>, and, when
  \<^verbatim>\<open>iqs\<close> is 0, the pair \<^verbatim>\<open>ds\<close> of the block, two values of type \<^verbatim>\<open>sycl::half\<close>. The code is \<open>None\<close>
  when the language does not define it: the conversion to \<^verbatim>\<open>int8_t\<close> is applied to an infinity, to
  a NaN, or to a number that no \<^verbatim>\<open>int8_t\<close> holds. A component of \<^verbatim>\<open>ds\<close> is \<open>None\<close> when it is not
  a finite value.
\<close>

record q8_1_store =
  store_ib :: nat
  store_iqs :: nat
  store_q :: "8 word option"
  store_ds :: "(real option \<times> real option) option"

text \<open>
  \<^verbatim>\<open>quantize_q8_1\<close> for the work-item of the lane \<open>lane\<close> in the sub-group whose first work-item
  has the column \<open>ix0\<close>; the 32 lanes of the sub-group have the columns \<open>ix0, \<dots>, ix0 + 31\<close> of the
  row \<open>iy\<close>. The result is \<open>None\<close> for a work-item that returns at once because its column is
  not below \<^verbatim>\<open>kx_padded\<close>. The scale \<^verbatim>\<open>d = amax / 127\<close> is a \<^verbatim>\<open>float\<close> division, which rounds; the
  guard of the division \<^verbatim>\<open>xi / d\<close> is \<^verbatim>\<open>amax == 0.0f\<close>.
\<close>

definition quantize_q8_1 ::
    "(nat \<Rightarrow> real) \<Rightarrow> nat \<Rightarrow> nat \<Rightarrow> nat \<Rightarrow> nat \<Rightarrow> nat \<Rightarrow> q8_1_store option" where
  "quantize_q8_1 x kx kx_padded iy ix0 lane =
     (let ix = ix0 + lane in
      if ix \<ge> kx_padded then None
      else
        let i_padded = iy * kx_padded + ix;
            ib = i_padded div QK8_1;
            iqs = i_padded mod QK8_1;
            xi = (\<lambda>l. quantize_q8_1_xi x kx iy (ix0 + l));
            (amax, sm) = quantize_q8_1_loop 16 (\<lambda>l. \<bar>xi l\<bar>, \<lambda>l. Some (xi l));
            d = float32 (amax lane / 127);
            q = (if amax lane = 0 then Some 0
                 else Option.bind (fdiv (xi lane) d) (\<lambda>v. float_to_int8 (sycl_round v)))
        in Some \<lparr> store_ib = ib, store_iqs = iqs, store_q = q,
                  store_ds = (if iqs > 0 then None
                              else Some (to_half d, Option.bind (sm lane) to_half)) \<rparr>)"

text \<open>
  The least positive value of type \<^verbatim>\<open>float\<close>, which \<^verbatim>\<open>float.h\<close> names \<^verbatim>\<open>FLT_TRUE_MIN\<close>.
\<close>

definition FLT_TRUE_MIN :: real where
  "FLT_TRUE_MIN = 1 / 2 ^ 149"

text \<open>
  Example: a row of 32 elements whose first element is the least positive \<^verbatim>\<open>float\<close> and whose
  other elements are 0.
\<close>

definition tiny_row :: "nat \<Rightarrow> real" where
  "tiny_row i = (if i = 0 then FLT_TRUE_MIN else 0)"

section \<open>Tensors, devices and the build configuration\<close>

text \<open>
  Modelled from the spec: \<^verbatim>\<open>enum ggml_type\<close>, \<^verbatim>\<open>enum ggml_backend_type\<close> and
  \<^verbatim>\<open>struct ggml_tensor\<close> are declared in \<^verbatim>\<open>ggml.h\<close>, which is not part of the sources at hand. A
  tensor has an element type (dense float32 or float16, or one of the quantized formats), a
  residency tag, and a shape of four dimensions. The predicates on the byte strides that the
  dispatcher asks for (\<^verbatim>\<open>ggml_is_permuted\<close>, \<^verbatim>\<open>ggml_is_contiguous\<close>, \<^verbatim>\<open>ggml_is_transposed\<close>) are
  functions of \<^verbatim>\<open>ggml.c\<close>; their outcome is a field of the model of the tensor.
\<close>

datatype ggml_type =
    GGML_TYPE_F32 | GGML_TYPE_F16
  | GGML_TYPE_Q4_0 | GGML_TYPE_Q4_1 | GGML_TYPE_Q5_0 | GGML_TYPE_Q5_1 | GGML_TYPE_Q8_0 | GGML_TYPE_Q8_1
  | GGML_TYPE_Q2_K | GGML_TYPE_Q3_K | GGML_TYPE_Q4_K | GGML_TYPE_Q5_K | GGML_TYPE_Q6_K | GGML_TYPE_Q8_K
  | GGML_TYPE_IQ2_XXS | GGML_TYPE_IQ2_XS | GGML_TYPE_IQ3_XXS | GGML_TYPE_IQ1_S | GGML_TYPE_IQ4_NL
  | GGML_TYPE_IQ3_S | GGML_TYPE_IQ2_S | GGML_TYPE_IQ4_XS
  | GGML_TYPE_I8 | GGML_TYPE_I16 | GGML_TYPE_I32

datatype ggml_backend_type =
  GGML_BACKEND_TYPE_CPU | GGML_BACKEND_TYPE_GPU | GGML_BACKEND_TYPE_GPU_SPLIT

record ggml_tensor =
  ttype :: ggml_type
  backend :: ggml_backend_type
  ne :: "nat \<Rightarrow> int"
  is_permuted :: bool
  is_contiguous :: bool
  is_transposed :: bool

definition ggml_is_quantized :: "ggml_type \<Rightarrow> bool" where
  "ggml_is_quantized t =
     (t \<notin> {GGML_TYPE_F32, GGML_TYPE_F16, GGML_TYPE_I8, GGML_TYPE_I16, GGML_TYPE_I32})"

definition ggml_nrows :: "ggml_tensor \<Rightarrow> int" where
  "ggml_nrows t = ne t 1 * ne t 2 * ne t 3"

text \<open>
  The remainder of C on signed integers: the quotient is truncated towards zero.
\<close>

definition c_div :: "int \<Rightarrow> int \<Rightarrow> int" where
  "c_div a b = sgn a * sgn b * (\<bar>a\<bar> div \<bar>b\<bar>)"

definition c_rem :: "int \<Rightarrow> int \<Rightarrow> int" where
  "c_rem a b = a - b * c_div a b"

text \<open>
  The macros of the build that the dispatcher reads are defined in headers that are not part
  of the sources at hand, or on the command line of the compiler: they are parameters of the
  model.
\<close>

record build_config =
  SYCL_USE_XMX :: bool
  GGML_SYCL_FORCE_DMMV :: bool
  VER_4VEC :: int
  VER_GEN9 :: int
  GGML_SYCL_DMMV_X :: int
  XMX_MAX_BATCH_SIZE :: int

text \<open>
  The global tables of the devices: \<^verbatim>\<open>g_device_count\<close>, the compute capability
  \<^verbatim>\<open>g_device_caps[i].cc\<close> of each device, and the split fractions \<^verbatim>\<open>g_tensor_split\<close>. The
  fractions are of type \<^verbatim>\<open>float\<close>, each modelled by the number it stands for.
\<close>

record device_tables =
  g_device_count :: nat
  g_device_cc :: "nat \<Rightarrow> int"
  g_tensor_split :: "nat \<Rightarrow> real"

definition INT_MAX :: int where
  "INT_MAX = 2147483647"


section \<open>The matrix-multiply dispatcher\<close>

text \<open>
  The loop of \<^verbatim>\<open>ggml_sycl_mul_mat\<close> that computes \<^verbatim>\<open>min_compute_capability\<close> over the devices
  \<open>i, i + 1, \<dots>\<close> that own a share of the rows.
\<close>

function min_cc_loop :: "device_tables \<Rightarrow> nat \<Rightarrow> int \<Rightarrow> int" where
  "min_cc_loop dt i min_compute_capability =
     (if i < g_device_count dt then
        min_cc_loop dt (i + 1)
          (if min_compute_capability > g_device_cc dt i
              \<and> g_tensor_split dt i < (if i + 1 < g_device_count dt then g_tensor_split dt (i + 1) else 1)
           then g_device_cc dt i else min_compute_capability)
      else min_compute_capability)"
  by pat_completeness auto
termination
  by (relation "measure (\<lambda>(dt, i, m). g_device_count dt - i)") auto

declare min_cc_loop.simps [simp del]

text \<open>The operation handed to \<^verbatim>\<open>ggml_sycl_op_mul_mat\<close>, and the paths that the dispatcher can take.\<close>

datatype mul_mat_op =
    ggml_sycl_op_mul_mat_sycl
  | ggml_sycl_op_mul_mat_vec_q
  | ggml_sycl_op_dequantize_mul_mat_vec
  | ggml_sycl_op_mul_mat_q

datatype mul_mat_path =
    ggml_sycl_mul_mat_vec_p021
  | ggml_sycl_mul_mat_vec_nc
  | ggml_sycl_mul_mat_batched_sycl
  | ggml_sycl_op_mul_mat mul_mat_op bool

text \<open>
  \<^verbatim>\<open>ggml_sycl_mul_mat(src0, src1, dst)\<close>: the path that is taken, with the operation and the flag
  \<^verbatim>\<open>convert_src1_to_q8_1\<close> that are passed on, or the failed assertion of the last branch.
\<close>

definition ggml_sycl_mul_mat ::
    "build_config \<Rightarrow> device_tables \<Rightarrow> ggml_tensor \<Rightarrow> ggml_tensor \<Rightarrow> ggml_tensor \<Rightarrow> fatal + mul_mat_path" where
  "ggml_sycl_mul_mat cfg dt src0 src1 dst =
     (let all_on_device =
            ((backend src0 = GGML_BACKEND_TYPE_GPU \<or> backend src0 = GGML_BACKEND_TYPE_GPU_SPLIT)
             \<and> backend src1 = GGML_BACKEND_TYPE_GPU
             \<and> backend dst = GGML_BACKEND_TYPE_GPU);
          split = (backend src0 = GGML_BACKEND_TYPE_GPU_SPLIT);
          min_compute_capability = min_cc_loop dt 0 INT_MAX;
          use_xmx = SYCL_USE_XMX cfg
      in
      if \<not> split \<and> all_on_device \<and> \<not> use_xmx \<and> ttype src0 = GGML_TYPE_F16
         \<and> is_permuted src0 \<and> is_permuted src1 \<and> ne src1 1 = 1
      then Inr ggml_sycl_mul_mat_vec_p021
      else if \<not> split \<and> all_on_device \<and> \<not> use_xmx \<and> ttype src0 = GGML_TYPE_F16
         \<and> \<not> is_contiguous src0 \<and> \<not> is_transposed src1 \<and> ne src1 1 = 1
      then Inr ggml_sycl_mul_mat_vec_nc
      else if \<not> split \<and> all_on_device \<and> use_xmx \<and> ttype src0 = GGML_TYPE_F16
         \<and> \<not> is_transposed src0 \<and> \<not> is_transposed src1
      then Inr ggml_sycl_mul_mat_batched_sycl
      else if ttype src0 = GGML_TYPE_F32
      then Inr (ggml_sycl_op_mul_mat ggml_sycl_op_mul_mat_sycl False)
      else if ggml_is_quantized (ttype src0) \<or> ttype src0 = GGML_TYPE_F16
      then
        (if ne src1 1 = 1 \<and> c_rem (ne src0 0) (GGML_SYCL_DMMV_X cfg) = 0
         then
           (let use_mul_mat_vec_q =
                  (if GGML_SYCL_FORCE_DMMV cfg then False
                   else min_compute_capability \<ge> VER_4VEC cfg
                        \<and> ggml_is_quantized (ttype src0) \<and> ggml_nrows src1 = 1)
            in if use_mul_mat_vec_q
               then Inr (ggml_sycl_op_mul_mat ggml_sycl_op_mul_mat_vec_q True)
               else Inr (ggml_sycl_op_mul_mat ggml_sycl_op_dequantize_mul_mat_vec False))
         else
           (let use_mul_mat_q0 = (min_compute_capability \<ge> VER_4VEC cfg \<and> ggml_is_quantized (ttype src0));
                use_mul_mat_q =
                  (if use_xmx \<and> min_compute_capability \<ge> VER_GEN9 cfg
                      \<and> ne src1 1 > XMX_MAX_BATCH_SIZE cfg
                   then False else use_mul_mat_q0)
            in if use_mul_mat_q
               then Inr (ggml_sycl_op_mul_mat ggml_sycl_op_mul_mat_q True)
               else Inr (ggml_sycl_op_mul_mat ggml_sycl_op_mul_mat_sycl False)))
      else Inl GGML_ASSERT_failed)"

text \<open>
  Example: the build with the values of the presets header (XMX kernels enabled, DMMV not
  forced), one device of compute capability 1000, and a Q4_0 weight matrix of 4096 columns.
\<close>

definition example_config :: build_config where
  "example_config =
     \<lparr> SYCL_USE_XMX = True, GGML_SYCL_FORCE_DMMV = False, VER_4VEC = 610, VER_GEN9 = 700,
       GGML_SYCL_DMMV_X = 32, XMX_MAX_BATCH_SIZE = 32 \<rparr>"

definition one_device :: device_tables where
  "one_device = \<lparr> g_device_count = 1, g_device_cc = (\<lambda>i. 1000), g_tensor_split = (\<lambda>i. 0) \<rparr>"

definition example_tensor :: "ggml_type \<Rightarrow> int \<Rightarrow> int \<Rightarrow> int \<Rightarrow> ggml_tensor" where
  "example_tensor t n0 n1 n2 =
     \<lparr> ttype = t, backend = GGML_BACKEND_TYPE_GPU,
       ne = (\<lambda>i. if i = 0 then n0 else if i = 1 then n1 else if i = 2 then n2 else 1),
       is_permuted = False, is_contiguous = True, is_transposed = False \<rparr>"


section \<open>Row splitting across devices\<close>




text \<open>
  The product \<^verbatim>\<open>ne01*tensor_split[i]\<close> is of type \<^verbatim>\<open>float\<close>: the \<^verbatim>\<open>int64_t\<close> operand is converted
  to \<^verbatim>\<open>float\<close>, which rounds it, and the product of the two \<^verbatim>\<open>float\<close> values is rounded again.
  (A split fraction is a \<^verbatim>\<open>float\<close> between 0 and 1, so that the product stays far below the
  largest \<^verbatim>\<open>float\<close>.)
\<close>

definition float_product :: "int \<Rightarrow> real \<Rightarrow> real" where
  "float_product ne01 fraction = float32 (float32 (real_of_int ne01) * fraction)"

text \<open>
  The conversion of a \<^verbatim>\<open>float\<close> to \<^verbatim>\<open>int64_t\<close> drops the fraction. (It is undefined for a value
  that no \<^verbatim>\<open>int64_t\<close> holds; the products above are not of this size.)
\<close>

definition float_to_int64 :: "real \<Rightarrow> int" where
  "float_to_int64 v = (if 0 \<le> v then \<lfloor>v\<rfloor> else \<lceil>v\<rceil>)"

text \<open>
  A boundary of the split: \<^verbatim>\<open>row = ne01*fraction; if (row < ne01) row -= row % rounding;\<close>
\<close>

definition split_boundary :: "int \<Rightarrow> int \<Rightarrow> real \<Rightarrow> int" where
  "split_boundary ne01 rounding fraction =
     (let row = float_to_int64 (float_product ne01 fraction)
      in if row < ne01 then row - c_rem row rounding else row)"








section \<open>The Q4_0 format and its dot product with a Q8_1 block\<close>

text \<open>
  Modelled from the spec: the constants \<^verbatim>\<open>QK4_0\<close>, \<^verbatim>\<open>QR4_0\<close>, \<^verbatim>\<open>QI4_0\<close> and the layout of
  \<^verbatim>\<open>block_q4_0\<close> are declared in a header that is not part of the sources at hand. A Q4_0 block
  groups 32 source elements, two codes of 4 bits to the byte, and holds one scale; \<^verbatim>\<open>QI4_0\<close> is
  the number of 32-bit integers that hold the codes of a block.
\<close>

definition QK4_0 :: nat where
  "QK4_0 = 32"

definition QR4_0 :: nat where
  "QR4_0 = 2"

definition QI4_0 :: nat where
  "QI4_0 = QK4_0 div (4 * QR4_0)"

definition VDR_Q4_0_Q8_1_MMVQ :: nat where
  "VDR_Q4_0_Q8_1_MMVQ = 2"

record block_q4_0 =
  d4 :: real
  qs4 :: "8 word list"

text \<open>The byte \<open>k\<close> of a 32-bit integer, the byte 0 being the least significant one.\<close>

definition byte_of :: "32 word \<Rightarrow> nat \<Rightarrow> 8 word" where
  "byte_of w k = ucast (drop_bit (8 * k) w)"

text \<open>
  \<^verbatim>\<open>get_int_from_uint8\<close> reads two 16-bit halves and joins them; \<^verbatim>\<open>get_int_from_int8_aligned\<close>
  reads the integer at once. Both read the four bytes from \<open>4 * i32\<close> on, the first byte
  being the least significant one (the byte order of the devices).
\<close>

definition get_int_from_uint8 :: "8 word list \<Rightarrow> nat \<Rightarrow> 32 word" where
  "get_int_from_uint8 x8 i32 =
     (let x16_0 = (ucast (x8 ! (4 * i32)) OR push_bit 8 (ucast (x8 ! (4 * i32 + 1))) :: 16 word);
          x16_1 = (ucast (x8 ! (4 * i32 + 2)) OR push_bit 8 (ucast (x8 ! (4 * i32 + 3))) :: 16 word)
      in 0 OR push_bit 0 (ucast x16_0) OR push_bit 16 (ucast x16_1))"

definition get_int_from_int8_aligned :: "8 word list \<Rightarrow> nat \<Rightarrow> 32 word" where
  "get_int_from_int8_aligned x8 i32 =
     ucast (x8 ! (4 * i32)) OR push_bit 8 (ucast (x8 ! (4 * i32 + 1)))
       OR push_bit 16 (ucast (x8 ! (4 * i32 + 2))) OR push_bit 24 (ucast (x8 ! (4 * i32 + 3)))"

text \<open>
  Modelled from the spec: \<^verbatim>\<open>dpct::dp4a\<close> is the 4-way packed integer multiply-accumulate of the
  SYCL compatibility library: the four signed bytes of \<open>a\<close> are multiplied with the four signed
  bytes of \<open>b\<close> and the products are added to the 32-bit accumulator \<open>c\<close>.
\<close>

definition dp4a :: "32 word \<Rightarrow> 32 word \<Rightarrow> 32 word \<Rightarrow> 32 word" where
  "dp4a a b c = word_of_int (sint c + (\<Sum>k\<leftarrow>[0..<4]. sint (byte_of a k) * sint (byte_of b k)))"

text \<open>
  \<^verbatim>\<open>vec_dot_q4_0_q8_1_impl<vdr>(v, u, d4, ds8)\<close>. The shift \<^verbatim>\<open>v[i] >> 4\<close> of a signed integer is
  the arithmetic one.
\<close>

definition vec_dot_q4_0_q8_1_impl :: "nat \<Rightarrow> 32 word list \<Rightarrow> 32 word list \<Rightarrow> real \<Rightarrow> real \<times> real \<Rightarrow> real" where
  "vec_dot_q4_0_q8_1_impl vdr v u d ds8 =
     (let sumi = foldl (\<lambda>sumi i.
                   let vi0 = signed_drop_bit 0 (v ! i) AND 0x0F0F0F0F;
                       vi1 = signed_drop_bit 4 (v ! i) AND 0x0F0F0F0F;
                       sumi' = dp4a vi0 (u ! (2 * i + 0)) sumi
                   in dp4a vi1 (u ! (2 * i + 1)) sumi') 0 [0..<vdr]
      in d * (real_of_int (sint sumi) * fst ds8 - real ((8 * vdr) div QI4_0) * snd ds8))"

text \<open>\<^verbatim>\<open>vec_dot_q4_0_q8_1(vbq, bq8_1, iqs)\<close>.\<close>

definition vec_dot_q4_0_q8_1 :: "block_q4_0 \<Rightarrow> block_q8_1 \<Rightarrow> nat \<Rightarrow> real" where
  "vec_dot_q4_0_q8_1 bq4_0 bq8_1 iqs =
     (let v = map (\<lambda>i. get_int_from_uint8 (qs4 bq4_0) (iqs + i)) [0..<VDR_Q4_0_Q8_1_MMVQ];
          u = concat (map (\<lambda>i. [get_int_from_int8_aligned (qs8 bq8_1) (iqs + i),
                                 get_int_from_int8_aligned (qs8 bq8_1) (iqs + i + QI4_0)])
                          [0..<VDR_Q4_0_Q8_1_MMVQ])
      in vec_dot_q4_0_q8_1_impl VDR_Q4_0_Q8_1_MMVQ v u (d4 bq4_0) (ds bq8_1))"

text \<open>
  A block is covered by the calls with \<open>iqs = 0, vdr, 2 * vdr, \<dots>\<close> below \<^verbatim>\<open>QI4_0\<close>, one call to a
  work-item, and the results are added up by the reduction over the sub-group.
\<close>

definition vec_dot_q4_0_q8_1_block :: "block_q4_0 \<Rightarrow> block_q8_1 \<Rightarrow> real" where
  "vec_dot_q4_0_q8_1_block bq4_0 bq8_1 =
     (\<Sum>t\<leftarrow>[0..<QI4_0 div VDR_Q4_0_Q8_1_MMVQ]. vec_dot_q4_0_q8_1 bq4_0 bq8_1 (VDR_Q4_0_Q8_1_MMVQ * t))"

text \<open>
  \<^verbatim>\<open>dequantize_q4_0(vx, ib, iqs, v)\<close> for the block \<^verbatim>\<open>x[ib]\<close>: the pair \<^verbatim>\<open>(v.x, v.y)\<close>.
\<close>

definition dequantize_q4_0 :: "block_q4_0 \<Rightarrow> nat \<Rightarrow> real \<times> real" where
  "dequantize_q4_0 x iqs =
     (let d = d4 x;
          vui = qs4 x ! iqs;
          vx = real (unat (vui AND 0xF));
          vy = real (unat (drop_bit 4 vui))
      in ((vx - 8) * d, (vy - 8) * d))"

text \<open>
  The element \<open>j\<close> of the dequantized block, as \<^verbatim>\<open>dequantize_block\<close> and
  \<^verbatim>\<open>dequantize_mul_mat_vec\<close> lay the pairs out: \<^verbatim>\<open>v.x\<close> is the element \<open>iqs\<close> and \<^verbatim>\<open>v.y\<close> the
  element \<open>iqs + QK4_0 / 2\<close>.
\<close>

definition dequantized_q4_0 :: "block_q4_0 \<Rightarrow> nat \<Rightarrow> real" where
  "dequantized_q4_0 x j =
     (if j < QK4_0 div 2 then fst (dequantize_q4_0 x j) else snd (dequantize_q4_0 x (j - QK4_0 div 2)))"

text \<open>
  The reference of the spec: the block is dequantized in full, and the ordinary dot product
  with a query vector is taken.
\<close>

definition reference_dot :: "block_q4_0 \<Rightarrow> (nat \<Rightarrow> real) \<Rightarrow> real" where
  "reference_dot x y = (\<Sum>j<QK4_0. dequantized_q4_0 x j * y j)"

text \<open>The code of 4 bits of the element \<open>j\<close> of a Q4_0 block, and the signed code of a Q8_1 block.\<close>

definition code_q4_0 :: "block_q4_0 \<Rightarrow> nat \<Rightarrow> int" where
  "code_q4_0 x j =
     (if j < QK4_0 div 2 then uint (qs4 x ! j AND 0xF) else uint (drop_bit 4 (qs4 x ! (j - QK4_0 div 2))))"

definition code_q8_1 :: "block_q8_1 \<Rightarrow> nat \<Rightarrow> int" where
  "code_q8_1 y j = sint (qs8 y ! j)"

text \<open>The value that the code \<open>j\<close> of a Q8_1 block stands for: the scale times the code.\<close>

definition dequantized_q8_1 :: "block_q8_1 \<Rightarrow> nat \<Rightarrow> real" where
  "dequantized_q8_1 y j = fst (ds y) * real_of_int (code_q8_1 y j)"

text \<open>
  The Q8_1 block that the 32 work-items of \<^verbatim>\<open>quantize_q8_1\<close> store for a row of 32 elements.
\<close>

definition q8_1_block_of :: "(nat \<Rightarrow> real) \<Rightarrow> block_q8_1" where
  "q8_1_block_of y =
     \<lparr> ds = (case quantize_q8_1 y 32 32 0 0 0 of
               Some st \<Rightarrow> (case store_ds st of Some (Some d, Some s) \<Rightarrow> (d, s) | _ \<Rightarrow> (0, 0))
             | None \<Rightarrow> (0, 0)),
       qs8 = map (\<lambda>l. case quantize_q8_1 y 32 32 0 0 l of
                         Some st \<Rightarrow> (case store_q st of Some q \<Rightarrow> q | None \<Rightarrow> 0)
                       | None \<Rightarrow> 0) [0..<32] \<rparr>"

text \<open>
  Example: the weights are 7 for the element 0 and 0 elsewhere, with the scale 1; the query is
  1/4 for the element 0, 127 for the element 1 and 0 elsewhere.
\<close>

definition spike_weights :: block_q4_0 where
  "spike_weights = \<lparr> d4 = 1, qs4 = 0x8F # replicate 15 0x88 \<rparr>"

definition spike_query :: "nat \<Rightarrow> real" where
  "spike_query j = (if j = 0 then 1 / 4 else if j = 1 then 127 else 0)"

text \<open>
  Auxiliary: the products of the codes that one call of \<^verbatim>\<open>dp4a\<close> accumulates for the 32-bit integer
  \<open>j\<close> of the weights, for the low nibbles and for the high nibbles.
\<close>

definition low_products :: "block_q4_0 \<Rightarrow> block_q8_1 \<Rightarrow> nat \<Rightarrow> int" where
  "low_products x y j = (\<Sum>k\<leftarrow>[0..<4]. code_q4_0 x (4 * j + k) * code_q8_1 y (4 * j + k))"

definition high_products :: "block_q4_0 \<Rightarrow> block_q8_1 \<Rightarrow> nat \<Rightarrow> int" where
  "high_products x y j = (\<Sum>k\<leftarrow>[0..<4]. code_q4_0 x (4 * j + k + 16) * code_q8_1 y (4 * j + k + 16))"

text \<open>
  Example: a query block of scale 1/2 with the codes 1, 2, 0, ..., whose stored sum 3/2 is the scale
  times the sum of the codes.
\<close>

definition small_query_block :: block_q8_1 where
  "small_query_block = \<lparr> ds = (1 / 2, 3 / 2), qs8 = 1 # 2 # replicate 30 0 \<rparr>"


section \<open>The softmax kernel\<close>

text \<open>
  \<^verbatim>\<open>soft_max_f32\<close> is run by one work-group per row, the work-group of the row \<open>rowx\<close> having
  \<open>local_range\<close> work-items in sub-groups of \<open>WARP_SIZE\<close> lanes. The model follows the kernel
  statement by statement for a whole work-group:

  \<^item> values of type \<^verbatim>\<open>float\<close> are exact reals, and \<^verbatim>\<open>-INFINITY\<close> is \<open>None\<close> of \<^typ>\<open>real option\<close>, which
    the order on options of the library puts below every \<open>Some v\<close>. The kernel model returns
    \<open>None\<close> where the kernel would use \<^verbatim>\<open>-INFINITY\<close> or a division by zero in its arithmetic;
  \<^item> a variable of the kernel is a function from the id \<open>tid\<close> of the work-item to its value;
  \<^item> the local array \<^verbatim>\<open>buf\<close>, through which the sub-groups exchange their results, is explicit.
    The array \<^verbatim>\<open>vals\<close> (\<^verbatim>\<open>buf + WARP_SIZE\<close>, or the row of \<^verbatim>\<open>dst\<close>) is an array of its own in the model:
    the kernel uses it at the indices \<open>col < ncols\<close> only, apart from \<^verbatim>\<open>buf[0 .. WARP_SIZE)\<close>;
  \<^item> between two synchronisations the work-items run their statements one after the other in the
    order of their ids. One pair of statements is not separated by a barrier although it touches
    the same element of \<^verbatim>\<open>buf\<close>; for it the order is a parameter of the model (see \<open>block_max\<close>).
\<close>

text \<open>The launcher asserts the value of \<^verbatim>\<open>SYCL_SOFT_MAX_BLOCK_SIZE\<close> (a \<^verbatim>\<open>static_assert\<close>).\<close>

definition SYCL_SOFT_MAX_BLOCK_SIZE :: nat where
  "SYCL_SOFT_MAX_BLOCK_SIZE = 1024"

text \<open>The arguments of the kernel; a null pointer \<^verbatim>\<open>mask\<close> or \<^verbatim>\<open>pos\<close> is \<open>None\<close>.\<close>

record soft_max_args =
  arg_x :: "nat \<Rightarrow> real"
  arg_mask :: "(nat \<Rightarrow> real) option"
  arg_pos :: "(nat \<Rightarrow> real) option"
  arg_ncols_par :: nat
  arg_nrows_y :: nat
  arg_scale :: real
  arg_max_bias :: real
  arg_m0 :: real
  arg_m1 :: real
  arg_n_head_log2 :: "32 word"

text \<open>The memory that one work-group reads and writes.\<close>

record soft_max_mem =
  mem_vals :: "nat \<Rightarrow> real"
  mem_buf :: "nat \<Rightarrow> real option"
  mem_dst :: "nat \<Rightarrow> real"

definition warp_id :: "nat \<Rightarrow> nat" where
  "warp_id tid = tid div WARP_SIZE"

definition lane_id :: "nat \<Rightarrow> nat" where
  "lane_id tid = tid mod WARP_SIZE"

text \<open>
  The ALiBi slope of the row: \<^verbatim>\<open>h\<close> is a \<^verbatim>\<open>uint32_t\<close>, \<^verbatim>\<open>exp\<close> an \<^verbatim>\<open>int\<close> that receives an unsigned
  expression, and \<^verbatim>\<open>sycl::pow(base, float(exp))\<close> is the power with an integer exponent.
\<close>

definition alibi_slope :: "soft_max_args \<Rightarrow> nat \<Rightarrow> real" where
  "alibi_slope a rowx =
     (if arg_max_bias a > 0 then
        (let h = (word_of_nat (rowx div arg_nrows_y a) :: 32 word);
             base = (if h < arg_n_head_log2 a then arg_m0 a else arg_m1 a);
             exp_i = (if h < arg_n_head_log2 a then sint (h + 1)
                      else sint (2 * (h - arg_n_head_log2 a) + 1))
         in power_int base exp_i)
      else 0)"

text \<open>
  \<^verbatim>\<open>x[ix]*scale + (mask ? mask[iy] : 0.0f) + (pos ? slope*pos[col] : 0.0f)\<close> with
  \<^verbatim>\<open>ix = rowx*ncols + col\<close>, \<^verbatim>\<open>iy = rowy*ncols + col\<close> and \<^verbatim>\<open>rowy = rowx % nrows_y\<close>.
\<close>

definition soft_max_val :: "soft_max_args \<Rightarrow> nat \<Rightarrow> real \<Rightarrow> nat \<Rightarrow> nat \<Rightarrow> real" where
  "soft_max_val a ncols slope rowx col =
     (let rowy = rowx mod arg_nrows_y a;
          ix = rowx * ncols + col;
          iy = rowy * ncols + col
      in arg_x a ix * arg_scale a
         + (case arg_mask a of Some m \<Rightarrow> m iy | None \<Rightarrow> 0)
         + (case arg_pos a of Some p \<Rightarrow> slope * p col | None \<Rightarrow> 0))"

text \<open>
  The header of the three loops over the columns,
  \<^verbatim>\<open>for (int col0 = 0; col0 < ncols; col0 += block_size) { const int col = col0 + tid;
  if (ncols_template == 0 && col >= ncols) break; ... }\<close>: the columns at which the work-item
  \<open>tid\<close> runs the body of the loop, from \<open>col0\<close> on. (With \<open>block_size = 0\<close> the loop of the kernel
  does not advance; every launch has at least \<open>WARP_SIZE\<close> work-items.)
\<close>

function thread_cols :: "nat \<Rightarrow> nat \<Rightarrow> nat \<Rightarrow> nat \<Rightarrow> nat \<Rightarrow> nat list" where
  "thread_cols ncols_template ncols block_size tid col0 =
     (if col0 < ncols \<and> 0 < block_size then
        (let col = col0 + tid
         in if ncols_template = 0 \<and> col \<ge> ncols then []
            else col # thread_cols ncols_template ncols block_size tid (col0 + block_size))
      else [])"
  by pat_completeness auto
termination
  by (relation "measure (\<lambda>(ncols_template, ncols, block_size, tid, col0). ncols - col0)") auto

declare thread_cols.simps [simp del]

text \<open>
  The work-items \<open>0, ..., n - 1\<close> run a piece of code one after the other. The code of a work-item
  takes the shared array and the private value of the work-item to their new values.
\<close>

definition each_item ::
    "nat \<Rightarrow> (nat \<Rightarrow> 's \<times> 'p \<Rightarrow> 's \<times> 'p) \<Rightarrow> 's \<times> (nat \<Rightarrow> 'p) \<Rightarrow> 's \<times> (nat \<Rightarrow> 'p)" where
  "each_item n code =
     fold (\<lambda>tid (shared, priv). case code tid (shared, priv tid) of
                                    (shared', p) \<Rightarrow> (shared', priv(tid := p))) [0..<n]"

text \<open>
  A collective operation of the sub-groups: the work-item \<open>tid\<close> receives the result of its lane,
  computed from the values that the lanes of its sub-group hold.
\<close>

definition sub_group :: "((nat \<Rightarrow> 'a) \<Rightarrow> nat \<Rightarrow> 'a) \<Rightarrow> (nat \<Rightarrow> 'a) \<Rightarrow> nat \<Rightarrow> 'a" where
  "sub_group reduce v tid = reduce (\<lambda>l. v (warp_id tid * WARP_SIZE + l)) (lane_id tid)"

text \<open>
  The first loop: \<^verbatim>\<open>vals[col] = val; max_val = sycl::max(max_val, val);\<close>.
\<close>

definition max_loop ::
    "(nat \<Rightarrow> real) \<Rightarrow> nat list \<Rightarrow> (nat \<Rightarrow> real) \<times> real option \<Rightarrow> (nat \<Rightarrow> real) \<times> real option" where
  "max_loop val cols =
     fold (\<lambda>col (vals, max_val). (vals(col := val col), max max_val (Some (val col)))) cols"

text \<open>
  The maximum of the block (\<^verbatim>\<open>max_val = warp_reduce_max(max_val)\<close> and the exchange through
  \<^verbatim>\<open>buf\<close> when there is more than one sub-group): sub-group 0 sets \<^verbatim>\<open>buf[lane_id]\<close> to
  \<^verbatim>\<open>-INFINITY\<close>; after a barrier lane 0 of every sub-group stores its \<^verbatim>\<open>max_val\<close> to
  \<^verbatim>\<open>buf[warp_id]\<close>; after a second barrier every work-item reads \<^verbatim>\<open>buf[lane_id]\<close>.

  No barrier stands between this read and the statement \<^verbatim>\<open>buf[lane_id] = 0.f\<close> with which
  sub-group 0 later prepares the exchange of the sums. Sub-group 0 reaches that statement without
  waiting for another sub-group. \<open>late tid\<close> says that the work-item \<open>tid\<close>, of a sub-group other
  than 0, reads \<^verbatim>\<open>buf[lane_id]\<close> after the work-item \<open>lane_id\<close> of sub-group 0 has stored \<^verbatim>\<open>0.f\<close>
  there.
\<close>

definition block_max ::
    "nat \<Rightarrow> nat \<Rightarrow> (nat \<Rightarrow> bool) \<Rightarrow> (nat \<Rightarrow> real option) \<times> (nat \<Rightarrow> real option)
      \<Rightarrow> (nat \<Rightarrow> real option) \<times> (nat \<Rightarrow> real option)" where
  "block_max block_size n late = (\<lambda>(buf, max_val).
     (let max_val = sub_group warp_reduce_max max_val
      in if block_size > WARP_SIZE then
           (let buf = fold (\<lambda>tid b. if warp_id tid = 0 then b(lane_id tid := None) else b) [0..<n] buf;
                buf = fold (\<lambda>tid b. if lane_id tid = 0 then b(warp_id tid := max_val tid) else b) [0..<n] buf;
                max_val = (\<lambda>tid. if late tid \<and> warp_id tid \<noteq> 0 then Some 0 else buf (lane_id tid))
            in (buf, sub_group warp_reduce_max max_val))
         else (buf, max_val)))"

text \<open>
  The second loop: \<^verbatim>\<open>const float val = sycl::native::exp(vals[col] - max_val); tmp += val;
  vals[col] = val;\<close>.
\<close>

definition exp_loop ::
    "real \<Rightarrow> nat list \<Rightarrow> (nat \<Rightarrow> real) \<times> real \<Rightarrow> (nat \<Rightarrow> real) \<times> real" where
  "exp_loop max_val cols =
     fold (\<lambda>col (vals, tmp). (let val = exp (vals col - max_val) in (vals(col := val), tmp + val))) cols"

text \<open>
  The sum of the block (\<^verbatim>\<open>tmp = warp_reduce_sum(tmp)\<close> and the exchange through \<^verbatim>\<open>buf\<close>):
  sub-group 0 sets \<^verbatim>\<open>buf[lane_id]\<close> to \<^verbatim>\<open>0.f\<close>; after a barrier lane 0 of every sub-group stores
  its \<^verbatim>\<open>tmp\<close> to \<^verbatim>\<open>buf[warp_id]\<close>; after a second barrier every work-item reads
  \<^verbatim>\<open>buf[lane_id]\<close>. The result is \<open>None\<close> when a work-item would read \<^verbatim>\<open>-INFINITY\<close> into its sum.
\<close>

definition block_sum ::
    "nat \<Rightarrow> nat \<Rightarrow> (nat \<Rightarrow> real option) \<times> (nat \<Rightarrow> real)
      \<Rightarrow> ((nat \<Rightarrow> real option) \<times> (nat \<Rightarrow> real)) option" where
  "block_sum block_size n = (\<lambda>(buf, tmp).
     (let tmp = sub_group warp_reduce_sum tmp
      in if block_size > WARP_SIZE then
           (let buf = fold (\<lambda>tid b. if warp_id tid = 0 then b(lane_id tid := Some 0) else b) [0..<n] buf;
                buf = fold (\<lambda>tid b. if lane_id tid = 0 then b(warp_id tid := Some (tmp tid)) else b) [0..<n] buf
            in if list_ex (\<lambda>tid. buf (lane_id tid) = None) [0..<n] then None
               else Some (buf, sub_group warp_reduce_sum (\<lambda>tid. the (buf (lane_id tid)))))
         else Some (buf, tmp)))"

text \<open>The third loop: \<^verbatim>\<open>dst[rowx*ncols + col] = vals[col] * inv_sum;\<close>.\<close>

definition scale_loop ::
    "nat \<Rightarrow> nat \<Rightarrow> (nat \<Rightarrow> real) \<Rightarrow> real \<Rightarrow> nat list \<Rightarrow> (nat \<Rightarrow> real) \<Rightarrow> nat \<Rightarrow> real" where
  "scale_loop rowx ncols vals inv_sum cols =
     fold (\<lambda>col dst. dst(rowx * ncols + col := vals col * inv_sum)) cols"

text \<open>
  The first half of the kernel, up to the maximum of the block: the arrays \<^verbatim>\<open>vals\<close> and \<^verbatim>\<open>buf\<close> and
  the value of \<^verbatim>\<open>max_val\<close> that every work-item holds.
\<close>

definition soft_max_f32_max ::
    "nat \<Rightarrow> nat \<Rightarrow> soft_max_args \<Rightarrow> nat \<Rightarrow> nat \<Rightarrow> (nat \<Rightarrow> bool) \<Rightarrow> soft_max_mem
      \<Rightarrow> (nat \<Rightarrow> real) \<times> (nat \<Rightarrow> real option) \<times> (nat \<Rightarrow> real option)" where
  "soft_max_f32_max ncols_template block_size_template a rowx local_range late mem =
     (let ncols = (if ncols_template = 0 then arg_ncols_par a else ncols_template);
          block_size = (if block_size_template = 0 then local_range else block_size_template);
          slope = alibi_slope a rowx;
          cols = (\<lambda>tid. thread_cols ncols_template ncols block_size tid 0);
          (vals, max_val) = each_item local_range
                              (\<lambda>tid. max_loop (soft_max_val a ncols slope rowx) (cols tid))
                              (mem_vals mem, \<lambda>tid. None);
          (buf, max_val) = block_max block_size local_range late (mem_buf mem, max_val)
      in (vals, buf, max_val))"

text \<open>
  The kernel. It is \<open>None\<close> when a work-item that has a column holds \<^verbatim>\<open>-INFINITY\<close> in \<^verbatim>\<open>max_val\<close>
  (the difference \<^verbatim>\<open>vals[col] - max_val\<close> is not finite then) or divides by a sum \<^verbatim>\<open>tmp\<close> that
  is zero.
\<close>

definition soft_max_f32 ::
    "nat \<Rightarrow> nat \<Rightarrow> soft_max_args \<Rightarrow> nat \<Rightarrow> nat \<Rightarrow> (nat \<Rightarrow> bool) \<Rightarrow> soft_max_mem
      \<Rightarrow> soft_max_mem option" where
  "soft_max_f32 ncols_template block_size_template a rowx local_range late mem =
     (let ncols = (if ncols_template = 0 then arg_ncols_par a else ncols_template);
          block_size = (if block_size_template = 0 then local_range else block_size_template);
          cols = (\<lambda>tid. thread_cols ncols_template ncols block_size tid 0);
          (vals, buf, max_val) =
             soft_max_f32_max ncols_template block_size_template a rowx local_range late mem
      in if list_ex (\<lambda>tid. cols tid \<noteq> [] \<and> max_val tid = None) [0..<local_range] then None
         else
           (let (vals, tmp) = each_item local_range
                                (\<lambda>tid. exp_loop (the (max_val tid)) (cols tid)) (vals, \<lambda>tid. 0)
            in case block_sum block_size local_range (buf, tmp) of
                 None \<Rightarrow> None
               | Some (buf, tmp) \<Rightarrow>
                   if list_ex (\<lambda>tid. cols tid \<noteq> [] \<and> tmp tid = 0) [0..<local_range] then None
                   else Some \<lparr> mem_vals = vals, mem_buf = buf,
                               mem_dst = fold (\<lambda>tid. scale_loop rowx ncols vals (1 / tmp tid) (cols tid))
                                           [0..<local_range] (mem_dst mem) \<rparr>))"

text \<open>
  The launch of \<^verbatim>\<open>soft_max_f32_sycl\<close>: the number \<^verbatim>\<open>nth\<close> of work-items of a work-group (\<open>n\<close> below), found by
  \<^verbatim>\<open>while (nth < ncols_x && nth < SYCL_SOFT_MAX_BLOCK_SIZE) nth *= 2;\<close>, and the instance of the
  kernel template. \<open>smem\<close> says whether the local scratch fits the local memory of the device
  (\<^verbatim>\<open>n_local_scratch*sizeof(float) < local_mem_size\<close>).
\<close>

function nth_loop :: "nat \<Rightarrow> nat \<Rightarrow> nat" where
  "nth_loop ncols_x n =
     (if n < ncols_x \<and> n < SYCL_SOFT_MAX_BLOCK_SIZE \<and> 0 < n then nth_loop ncols_x (n * 2) else n)"
  by pat_completeness auto
termination
  by (relation "measure (\<lambda>(ncols_x, n). SYCL_SOFT_MAX_BLOCK_SIZE - n)") auto

declare nth_loop.simps [simp del]

record soft_max_launch =
  vals_smem :: bool
  ncols_template :: nat
  block_size_template :: nat
  launch_block_dims :: nat

definition soft_max_f32_sycl :: "nat \<Rightarrow> bool \<Rightarrow> soft_max_launch" where
  "soft_max_f32_sycl ncols_x smem =
     (let n = nth_loop ncols_x WARP_SIZE
      in if smem then
           (if ncols_x = 32 then \<lparr> vals_smem = True, ncols_template = 32, block_size_template = 32, launch_block_dims = n \<rparr>
            else if ncols_x = 64 then \<lparr> vals_smem = True, ncols_template = 64, block_size_template = 64, launch_block_dims = n \<rparr>
            else if ncols_x = 128 then \<lparr> vals_smem = True, ncols_template = 128, block_size_template = 128, launch_block_dims = n \<rparr>
            else if ncols_x = 256 then \<lparr> vals_smem = True, ncols_template = 256, block_size_template = 256, launch_block_dims = n \<rparr>
            else if ncols_x = 512 then \<lparr> vals_smem = True, ncols_template = 512, block_size_template = 512, launch_block_dims = n \<rparr>
            else if ncols_x = 1024 then \<lparr> vals_smem = True, ncols_template = 1024, block_size_template = 1024, launch_block_dims = n \<rparr>
            else if ncols_x = 2048 then \<lparr> vals_smem = True, ncols_template = 2048, block_size_template = 1024, launch_block_dims = n \<rparr>
            else if ncols_x = 4096 then \<lparr> vals_smem = True, ncols_template = 4096, block_size_template = 1024, launch_block_dims = n \<rparr>
            else \<lparr> vals_smem = True, ncols_template = 0, block_size_template = 0, launch_block_dims = n \<rparr>)
         else \<lparr> vals_smem = False, ncols_template = 0, block_size_template = 0, launch_block_dims = n \<rparr>)"

text \<open>The work-group of the row \<open>rowx\<close> in the launch of \<^verbatim>\<open>soft_max_f32_sycl\<close>.\<close>

definition soft_max_row ::
    "soft_max_args \<Rightarrow> bool \<Rightarrow> nat \<Rightarrow> (nat \<Rightarrow> bool) \<Rightarrow> soft_max_mem \<Rightarrow> soft_max_mem option" where
  "soft_max_row a smem rowx late mem =
     (let l = soft_max_f32_sycl (arg_ncols_par a) smem
      in soft_max_f32 (ncols_template l) (block_size_template l) a rowx (launch_block_dims l) late mem)"

text \<open>
  The element \<open>i\<close> of \<^verbatim>\<open>dst\<close> after that work-group has run, and the execution in which no
  work-item reads late.
\<close>

definition soft_max_dst ::
    "soft_max_args \<Rightarrow> bool \<Rightarrow> nat \<Rightarrow> (nat \<Rightarrow> bool) \<Rightarrow> soft_max_mem \<Rightarrow> nat \<Rightarrow> real option" where
  "soft_max_dst a smem rowx late mem i = map_option (\<lambda>m. mem_dst m i) (soft_max_row a smem rowx late mem)"

definition in_order :: "nat \<Rightarrow> bool" where
  "in_order tid = False"

text \<open>The value of \<^verbatim>\<open>max_val\<close> that the work-item \<open>tid\<close> of that work-group holds in its second loop.\<close>

definition soft_max_row_max ::
    "soft_max_args \<Rightarrow> bool \<Rightarrow> nat \<Rightarrow> (nat \<Rightarrow> bool) \<Rightarrow> soft_max_mem \<Rightarrow> nat \<Rightarrow> real option" where
  "soft_max_row_max a smem rowx late mem =
     (let l = soft_max_f32_sycl (arg_ncols_par a) smem
      in snd (snd (soft_max_f32_max (ncols_template l) (block_size_template l) a rowx (launch_block_dims l) late mem)))"

text \<open>
  The value of the column \<open>col\<close> before the exponential, and the softmax of a row as the claim
  words it: \<open>exp (v col - rowmax)\<close> divided by the sum over the row of \<open>exp (v col - rowmax)\<close>.
\<close>

definition soft_max_v :: "soft_max_args \<Rightarrow> nat \<Rightarrow> nat \<Rightarrow> real" where
  "soft_max_v a rowx col = soft_max_val a (arg_ncols_par a) (alibi_slope a rowx) rowx col"

definition soft_max_reference :: "(nat \<Rightarrow> real) \<Rightarrow> nat \<Rightarrow> nat \<Rightarrow> real" where
  "soft_max_reference v ncols col =
     exp (v col - Max (v ` {..<ncols})) / (\<Sum>c<ncols. exp (v c - Max (v ` {..<ncols})))"

text \<open>
  Example: one row of 64 columns, every element 1, without mask and positions. The launch has
  two sub-groups; in the execution \<open>second_sub_group_late\<close> the work-items of the second one read
  \<^verbatim>\<open>buf\<close> after sub-group 0 has prepared it for the sums.
\<close>

definition ones_row :: soft_max_args where
  "ones_row = \<lparr> arg_x = (\<lambda>i. 1), arg_mask = None, arg_pos = None, arg_ncols_par = 64,
                arg_nrows_y = 1, arg_scale = 1, arg_max_bias = 0, arg_m0 = 1, arg_m1 = 1,
                arg_n_head_log2 = 1 \<rparr>"

definition second_sub_group_late :: "nat \<Rightarrow> bool" where
  "second_sub_group_late tid = (32 \<le> tid)"

definition zero_mem :: soft_max_mem where
  "zero_mem = \<lparr> mem_vals = (\<lambda>i. 0), mem_buf = (\<lambda>i. None), mem_dst = (\<lambda>i. 0) \<rparr>"

text \<open>
  Auxiliary notions for the proofs: the columns of the work-item \<open>tid\<close> in a block of \<open>n\<close>
  work-items, the maximum of the values at these columns (\<^verbatim>\<open>-INFINITY\<close> when there is none), and
  the launches whose template arguments agree with the number \<open>n\<close> of work-items.
\<close>

definition item_cols :: "nat \<Rightarrow> nat \<Rightarrow> nat \<Rightarrow> nat set" where
  "item_cols ncols n tid = {c. c < ncols \<and> c mod n = tid}"

definition item_max :: "(nat \<Rightarrow> real) \<Rightarrow> nat \<Rightarrow> nat \<Rightarrow> nat \<Rightarrow> real option" where
  "item_max val ncols n tid =
     (if item_cols ncols n tid = {} then None else Some (Max (val ` item_cols ncols n tid)))"

definition launch_ok :: "nat \<Rightarrow> nat \<Rightarrow> nat \<Rightarrow> bool" where
  "launch_ok ct bt n \<longleftrightarrow> 32 dvd n \<and> 0 < n \<and> n \<le> 1024 \<and> (bt = 0 \<or> bt = n) \<and> (ct = 0 \<or> n dvd ct)"


section \<open>Properties of the rounding\<close>

lemma round_nearest_even_int [simp]: "round_nearest_even (of_int k) = k"
  by (simp add: round_nearest_even_def)


lemma round_nearest_even_down:
  assumes "of_int q \<le> x" "x < of_int q + 1 / 2"
  shows "round_nearest_even x = q"
proof -
  have "\<lfloor>x\<rfloor> = q" using assms by (intro floor_unique) simp_all
  then show ?thesis using assms by (simp add: round_nearest_even_def Let_def)
qed

lemma round_nearest_even_up:
  assumes "of_int q + 1 / 2 < x" "x < of_int q + 1"
  shows "round_nearest_even x = q + 1"
proof -
  have "\<lfloor>x\<rfloor> = q" using assms by (intro floor_unique) simp_all
  then show ?thesis using assms by (simp add: round_nearest_even_def Let_def)
qed



lemma powr_powi: "(2::real) powr (real_of_int k) = 2 powi k"
  by (simp add: powr_real_of_int' power_int_def power_inverse[symmetric] inverse_eq_divide)

lemma powi_nonneg_int: "0 \<le> k \<Longrightarrow> (2::real) powi k = of_int (2 ^ nat k)"
  by (simp add: power_int_def)


lemma binade_bounds:
  assumes "0 < v"
  shows "2 powi \<lfloor>log 2 v\<rfloor> \<le> v" "v < 2 powi (\<lfloor>log 2 v\<rfloor> + 1)"
proof -
  have "2 powr real_of_int \<lfloor>log 2 v\<rfloor> \<le> 2 powr log 2 v"
    by (intro powr_mono) simp_all
  then show "2 powi \<lfloor>log 2 v\<rfloor> \<le> v" using assms by (simp add: powr_powi)
  have "2 powr log 2 v < 2 powr real_of_int (\<lfloor>log 2 v\<rfloor> + 1)"
    by (intro powr_less_mono) simp_all
  then show "v < 2 powi (\<lfloor>log 2 v\<rfloor> + 1)" using assms by (simp only: powr_powi powr_log_cancel)
qed

lemma binade_eq:
  assumes "2 powi b \<le> v" "v < 2 powi (b + 1)"
  shows "\<lfloor>log 2 v\<rfloor> = b"
proof -
  have v: "0 < v" using assms(1) by (rule less_le_trans[rotated]) simp
  have "real_of_int b \<le> log 2 v"
    using assms(1) v by (simp add: le_log_iff powr_powi)
  moreover have "log 2 v < real_of_int (b + 1)"
    using assms(2) v by (simp only: log_less_iff powr_powi)
  ultimately show ?thesis by (simp add: floor_eq_iff)
qed

lemma round_float_eval:
  assumes "2 powi b \<le> \<bar>v\<bar>" "\<bar>v\<bar> < 2 powi (b + 1)"
  shows "round_float p emin v =
           of_int (round_nearest_even (v / 2 powi (max (b - (int p - 1)) emin))) * 2 powi (max (b - (int p - 1)) emin)"
proof -
  have "(0::real) < 2 powi b" by simp
  then have "0 < \<bar>v\<bar>" using assms(1) by linarith
  then have "v \<noteq> 0" by simp
  then show ?thesis by (simp add: round_float_def binade_eq[OF assms] Let_def)
qed

lemma round_float_0 [simp]: "round_float p emin 0 = 0"
  by (simp add: round_float_def)


text \<open>A value of at most \<open>p\<close> significant bits above the least exponent is not changed.\<close>

lemma round_float_exact:
  assumes "\<bar>m\<bar> < 2 ^ p" "emin \<le> e"
  shows "round_float p emin (of_int m * 2 powi e) = of_int m * 2 powi e"
proof (cases "m = 0")
  case False
  define v :: real where "v = of_int m * 2 powi e"
  have v0: "v \<noteq> 0" using False by (simp add: v_def)
  have av: "\<bar>v\<bar> = of_int \<bar>m\<bar> * 2 powi e" by (simp add: v_def abs_mult)
  have "of_int \<bar>m\<bar> < (2::real) ^ p" using assms(1) by (metis of_int_less_numeral_power_cancel_iff)
  then have "\<bar>v\<bar> < 2 ^ p * 2 powi e" unfolding av by (intro mult_strict_right_mono) simp_all
  also have "\<dots> = 2 powi (int p + e)" by (simp add: power_int_add)
  finally have "\<bar>v\<bar> < 2 powi (int p + e)" .
  moreover have "0 < \<bar>v\<bar>" using v0 by simp
  ultimately have "log 2 \<bar>v\<bar> < real_of_int (int p + e)"
    by (simp only: log_less_iff powr_powi)
  then have "\<lfloor>log 2 \<bar>v\<bar>\<rfloor> < int p + e" by (simp add: floor_less_iff)
  then have le: "max (\<lfloor>log 2 \<bar>v\<bar>\<rfloor> - (int p - 1)) emin \<le> e" using assms(2) by simp
  define k where "k = max (\<lfloor>log 2 \<bar>v\<bar>\<rfloor> - (int p - 1)) emin"
  have "v / 2 powi k = of_int m * 2 powi (e - k)"
    by (simp add: v_def power_int_diff)
  also have "2 powi (e - k) = (of_int (2 ^ nat (e - k)) :: real)"
    using le by (simp add: k_def powi_nonneg_int)
  finally have "v / 2 powi k = of_int (m * 2 ^ nat (e - k))" by simp
  then have "round_nearest_even (v / 2 powi k) = m * 2 ^ nat (e - k)"
    by (simp only: round_nearest_even_int)
  then have "round_float p emin v = of_int (m * 2 ^ nat (e - k)) * 2 powi k"
    using v0 by (simp add: round_float_def Let_def k_def)
  also have "\<dots> = of_int m * (2 powi (e - k) * 2 powi k)"
    using le by (simp add: k_def powi_nonneg_int)
  also have "2 powi (e - k) * 2 powi k = (2 powi e :: real)"
    by (simp add: power_int_add[symmetric])
  finally show ?thesis by (simp add: v_def)
qed simp




lemma float32_0 [simp]: "float32 0 = 0"
  by (simp add: float32_def)

lemma float32_exact:
  "\<bar>m\<bar> < 2 ^ 24 \<Longrightarrow> - 149 \<le> e \<Longrightarrow> float32 (of_int m * 2 powi e) = of_int m * 2 powi e"
  unfolding float32_def by (rule round_float_exact)

lemma float32_eval:
  assumes "2 powi b \<le> \<bar>v\<bar>" "\<bar>v\<bar> < 2 powi (b + 1)"
  shows "float32 v = of_int (round_nearest_even (v / 2 powi (max (b - 23) (- 149)))) * 2 powi (max (b - 23) (- 149))"
  unfolding float32_def using round_float_eval[OF assms, of 24 "- 149"] by simp

text \<open>The conversion of an integer of at most 24 bits to \<^verbatim>\<open>float\<close> is exact.\<close>

lemma float32_int:
  assumes "\<bar>k\<bar> \<le> 2 ^ 24"
  shows "float32 (of_int k) = of_int k"
proof (cases "\<bar>k\<bar> < 2 ^ 24")
  case True
  from float32_exact[OF True, of 0] show ?thesis by simp
next
  case False
  with assms have "k = 2 ^ 24 \<or> k = - (2 ^ 24)" by linarith
  then show ?thesis
  proof
    assume k: "k = 2 ^ 24"
    have "float32 (of_int 1 * 2 powi 24) = of_int 1 * 2 powi 24"
      by (rule float32_exact) simp_all
    then show ?thesis by (simp add: k)
  next
    assume k: "k = - (2 ^ 24)"
    have "float32 (of_int (- 1) * 2 powi 24) = of_int (- 1) * 2 powi 24"
      by (rule float32_exact) simp_all
    then show ?thesis by (simp add: k)
  qed
qed


text \<open>A value below half of the least subnormal value rounds to 0.\<close>

lemma round_nearest_even_small:
  assumes "\<bar>x\<bar> < 1 / 2"
  shows "round_nearest_even x = 0"
proof (cases "0 \<le> x")
  case True
  with assms show ?thesis by (intro round_nearest_even_down) simp_all
next
  case False
  with assms have "round_nearest_even x = - 1 + 1" by (intro round_nearest_even_up) simp_all
  then show ?thesis by simp
qed

lemma round_float_underflow:
  assumes "\<bar>v\<bar> < 2 powi (emin - 1)" "0 < p"
  shows "round_float p emin v = 0"
proof (cases "v = 0")
  case False
  define b where "b = \<lfloor>log 2 \<bar>v\<bar>\<rfloor>"
  have v: "0 < \<bar>v\<bar>" using False by simp
  have "(2::real) powi b < 2 powi (emin - 1)"
    using binade_bounds(1)[OF v] assms(1) by (simp add: b_def)
  then have "b < emin - 1"
    using power_int_increasing[of "emin - 1" b "2::real"] by (cases "b < emin - 1") simp_all
  then have e: "max (b - (int p - 1)) emin = emin" using assms(2) by simp
  have "\<bar>v / 2 powi emin\<bar> = \<bar>v\<bar> / 2 powi emin" by simp
  also have "\<dots> < 2 powi (emin - 1) / 2 powi emin"
    using assms(1) by (intro divide_strict_right_mono) simp_all
  also have "\<dots> = 1 / 2" by (simp add: power_int_diff)
  finally have "round_nearest_even (v / 2 powi emin) = 0" by (rule round_nearest_even_small)
  then show ?thesis using False e by (simp add: round_float_def Let_def b_def)
qed simp

lemma float32_underflow: "\<bar>v\<bar> < 2 powi (- 150) \<Longrightarrow> float32 v = 0"
  unfolding float32_def by (rule round_float_underflow) simp_all

lemma float16_underflow: "\<bar>v\<bar> < 2 powi (- 25) \<Longrightarrow> float16 v = 0"
  unfolding float16_def by (rule round_float_underflow) simp_all

text \<open>The values of a format are fixed points of the rounding to it.\<close>

lemma powi_le_pow:
  assumes "e \<le> int n"
  shows "(2::real) powi e \<le> 2 ^ n"
proof -
  have "(2::real) powi e \<le> 2 powi (int n)" using assms by (intro power_int_increasing) simp_all
  then show ?thesis by simp
qed

lemma to_float_exact:
  assumes "\<bar>m\<bar> < 2 ^ 24" "- 149 \<le> e" "e \<le> 104"
  shows "to_float (of_int m * 2 powi e) = Some (of_int m * 2 powi e)"
proof -
  have "\<bar>m\<bar> \<le> 16777215" using assms(1) by simp
  then have "real_of_int \<bar>m\<bar> \<le> real_of_int 16777215" by (simp only: of_int_le_iff)
  then have "real_of_int \<bar>m\<bar> \<le> 2 ^ 24 - 1" by simp
  moreover have "(2::real) powi e \<le> 2 ^ 104" using assms(3) by (intro powi_le_pow) simp
  ultimately have "real_of_int \<bar>m\<bar> * 2 powi e \<le> (2 ^ 24 - 1) * 2 ^ 104"
    by (intro mult_mono) simp_all
  then have "\<bar>real_of_int m * 2 powi e\<bar> \<le> FLT_MAX" by (simp add: abs_mult FLT_MAX_def)
  then show ?thesis by (simp add: to_float_def float32_exact[OF assms(1,2)])
qed

lemma float16_exact:
  "\<bar>m\<bar> < 2 ^ 11 \<Longrightarrow> - 24 \<le> e \<Longrightarrow> float16 (of_int m * 2 powi e) = of_int m * 2 powi e"
  unfolding float16_def by (rule round_float_exact)

lemma to_half_exact:
  assumes "\<bar>m\<bar> < 2 ^ 11" "- 24 \<le> e" "e \<le> 5"
  shows "to_half (of_int m * 2 powi e) = Some (of_int m * 2 powi e)"
proof -
  have "\<bar>m\<bar> \<le> 2047" using assms(1) by simp
  then have "real_of_int \<bar>m\<bar> \<le> real_of_int 2047" by (simp only: of_int_le_iff)
  then have "real_of_int \<bar>m\<bar> \<le> 2047" by simp
  moreover have "(2::real) powi e \<le> 2 ^ 5" using assms(3) by (intro powi_le_pow) simp
  ultimately have "real_of_int \<bar>m\<bar> * 2 powi e \<le> 2047 * 2 ^ 5"
    by (intro mult_mono) simp_all
  then have "\<bar>real_of_int m * 2 powi e\<bar> \<le> 65504" by (simp add: abs_mult)
  then show ?thesis by (simp add: to_half_def float16_exact[OF assms(1,2)])
qed

lemma to_float_0 [simp]: "to_float 0 = Some 0"
  by (simp add: to_float_def FLT_MAX_def)

lemma to_half_0 [simp]: "to_half 0 = Some 0"
  by (simp add: to_half_def float16_def)

section \<open>The butterfly reduction gathers the whole sub-group\<close>

lemma bit_xor_pow: "bit ((j::nat) XOR 2 ^ k) n = (bit j n \<noteq> (n = k))"
  by (auto simp add: bit_simps)

lemma xor_pow_cancel: "(j XOR 2 ^ k) XOR 2 ^ k = (j::nat)"
  by (simp add: xor.assoc)

lemma not_bit_ge: "(l::nat) < 2 ^ n \<Longrightarrow> n \<le> m \<Longrightarrow> \<not> bit l m"
proof -
  assume a: "l < 2 ^ n" "n \<le> m"
  have "(2::nat) ^ n \<le> 2 ^ m" using a(2) by simp
  with a(1) have "l < 2 ^ m" by linarith
  then show "\<not> bit l m" by (simp add: bit_iff_odd)
qed

lemma less_pow_if_no_bits:
  assumes "\<forall>m\<ge>n. \<not> bit (j::nat) m" shows "j < 2 ^ n"
proof -
  have "take_bit n j = j"
    by (rule bit_eqI) (use assms in \<open>auto simp: bit_simps not_le[symmetric]\<close>)
  moreover have "take_bit n j < 2 ^ n" by (rule take_bit_nat_less_exp)
  ultimately show ?thesis by (simp only:)
qed

lemma xor_pow_less: 
  assumes "j < 2 ^ n" "k < n" shows "(j::nat) XOR 2 ^ k < 2 ^ n"
  by (rule less_pow_if_no_bits) (use assms not_bit_ge[of j n] in \<open>auto simp: bit_xor_pow\<close>)

lemma lane_block_Suc:
  "lane_block (Suc k) l = lane_block k l \<union> (\<lambda>j. j XOR 2 ^ k) ` lane_block k l"
proof (intro set_eqI iffI)
  fix j assume j: "j \<in> lane_block (Suc k) l"
  show "j \<in> lane_block k l \<union> (\<lambda>j. j XOR 2 ^ k) ` lane_block k l"
  proof (cases "bit j k = bit l k")
    case True 
    have "bit j n = bit l n" if "k \<le> n" for n
      using that j True by (cases "n = k") (auto simp: lane_block_def)
    then show ?thesis by (simp add: lane_block_def)
  next
    case False
    have "bit (j XOR 2 ^ k) n = bit l n" if "k \<le> n" for n
      using that j False by (cases "n = k") (auto simp: lane_block_def bit_xor_pow)
    then have "j XOR 2 ^ k \<in> lane_block k l" by (simp add: lane_block_def)
    moreover have "j = (j XOR 2 ^ k) XOR 2 ^ k" by (simp add: xor_pow_cancel)
    ultimately show ?thesis by blast
  qed
next
  fix j assume "j \<in> lane_block k l \<union> (\<lambda>j. j XOR 2 ^ k) ` lane_block k l"
  then show "j \<in> lane_block (Suc k) l"
    by (auto simp: lane_block_def bit_xor_pow)
qed

lemma lane_block_disj:
  "lane_block k l \<inter> (\<lambda>j. j XOR 2 ^ k) ` lane_block k l = {}"
proof -
  have False if "j \<in> lane_block k l" "i \<in> lane_block k l" "j = i XOR 2 ^ k" for i j
  proof -
    from that have "bit j k = bit l k" "bit i k = bit l k" "bit j k = (\<not> bit i k)"
      by (auto simp: lane_block_def bit_xor_pow)
    then show False by simp
  qed
  then show ?thesis by blast
qed

lemma inj_xor_pow: "inj_on (\<lambda>j::nat. j XOR 2 ^ k) A"
  by (rule inj_onI) (metis xor_pow_cancel)

lemma lane_block_less: 
  assumes "l < 2 ^ n" "k \<le> n" "j \<in> lane_block k l" shows "j < 2 ^ n"
  by (rule less_pow_if_no_bits) (use assms not_bit_ge[of l n] in \<open>auto simp: lane_block_def\<close>)

lemma lane_block_full: "l < 2 ^ k \<Longrightarrow> lane_block k l = {..<2 ^ k}"
  using lane_block_less[of l k k] not_bit_ge[of _ k] by (auto simp: lane_block_def)

lemma lane_block_0: "lane_block 0 l = {l}"
  by (auto simp: lane_block_def intro: bit_eqI)

lemma finite_lane_block: "finite (lane_block k l)"
proof (induction k)
  case 0 show ?case by (simp add: lane_block_0)
next
  case (Suc k) then show ?case by (simp add: lane_block_Suc)
qed

lemma lane_block_self: "l \<in> lane_block k l"
  by (simp add: lane_block_def)


lemma warp_reduce_sum_loop_step:
  "0 < msk \<Longrightarrow> warp_reduce_sum_loop msk x = warp_reduce_sum_loop (msk div 2) (xor_step (+) msk x)"
  by (subst warp_reduce_sum_loop.simps) (simp add: xor_step_def drop_bit_eq_div)

lemma warp_reduce_sum_loop_0: "warp_reduce_sum_loop 0 x = x"
  by (subst warp_reduce_sum_loop.simps) simp

lemma warp_reduce_max_loop_step:
  "0 < msk \<Longrightarrow> warp_reduce_max_loop msk x = warp_reduce_max_loop (msk div 2) (xor_step max msk x)"
  by (subst warp_reduce_max_loop.simps) (simp add: xor_step_def drop_bit_eq_div)

lemma warp_reduce_max_loop_0: "warp_reduce_max_loop 0 x = x"
  by (subst warp_reduce_max_loop.simps) simp

lemma warp_reduce_sum_steps:
  "warp_reduce_sum x = xor_step (+) 1 (xor_step (+) 2 (xor_step (+) 4 (xor_step (+) 8 (xor_step (+) 16 x))))"
  by (simp add: warp_reduce_sum_def warp_reduce_sum_loop_step warp_reduce_sum_loop_0)

lemma warp_reduce_max_steps:
  "warp_reduce_max x = xor_step max 1 (xor_step max 2 (xor_step max 4 (xor_step max 8 (xor_step max 16 x))))"
  by (simp add: warp_reduce_max_def warp_reduce_max_loop_step warp_reduce_max_loop_0)

lemma permute_xor_pow:
  assumes "k < 5"
  shows "permute_sub_group_by_xor x (2 ^ k) lid = x (lid XOR 2 ^ k)"
proof -
  have lt: "(lid mod 32) XOR 2 ^ k < 32"
    using xor_pow_less[of "lid mod 32" 5 k] assms by simp
  have "(2::nat) ^ k < 2 ^ 5"
    using assms by (intro power_strict_increasing) simp_all
  then have p: "(2::nat) ^ k mod 32 = 2 ^ k" by simp
  have m: "(lid XOR 2 ^ k) mod 32 = (lid mod 32) XOR 2 ^ k"
    using take_bit_xor[of 5 lid "2 ^ k"] by (simp add: take_bit_eq_mod p)
  have "drop_bit 5 (lid XOR 2 ^ k) = drop_bit 5 lid"
    by (rule bit_eqI) (use assms in \<open>simp add: bit_simps\<close>)
  then have d: "(lid XOR 2 ^ k) div 32 = lid div 32"
    by (simp add: drop_bit_eq_div)
  have "lid XOR 2 ^ k = (lid XOR 2 ^ k) div 32 * 32 + (lid XOR 2 ^ k) mod 32"
    by simp
  then have "lid div 32 * 32 + ((lid mod 32) XOR 2 ^ k) = lid XOR 2 ^ k"
    by (simp only: m d)
  with lt show ?thesis
    by (simp add: permute_sub_group_by_xor_def WARP_SIZE_def Let_def)
qed

lemma sum_lane_block_Suc:
  fixes x :: "nat \<Rightarrow> 'a::comm_monoid_add"
  shows "(\<Sum>j\<in>lane_block (Suc k) l. x j) = (\<Sum>j\<in>lane_block k l. x j + x (j XOR 2 ^ k))"
proof -
  have "(\<Sum>j\<in>lane_block (Suc k) l. x j)
      = (\<Sum>j\<in>lane_block k l. x j) + (\<Sum>j\<in>(\<lambda>j. j XOR 2 ^ k) ` lane_block k l. x j)"
    unfolding lane_block_Suc
    by (rule sum.union_disjoint) (simp_all add: finite_lane_block lane_block_disj)
  also have "(\<Sum>j\<in>(\<lambda>j. j XOR 2 ^ k) ` lane_block k l. x j) = (\<Sum>j\<in>lane_block k l. x (j XOR 2 ^ k))"
    by (simp add: sum.reindex[OF inj_xor_pow])
  finally show ?thesis by (simp add: sum.distrib)
qed

lemma warp_reduce_sum_loop_blocks:
  fixes x :: "nat \<Rightarrow> 'a::comm_monoid_add"
  shows "k \<le> 5 \<Longrightarrow> warp_reduce_sum_loop (2 ^ k div 2) x l = (\<Sum>j\<in>lane_block k l. x j)"
proof (induction k arbitrary: x)
  case 0
  show ?case by (simp add: lane_block_0 warp_reduce_sum_loop_0)
next
  case (Suc k)
  have "warp_reduce_sum_loop (2 ^ Suc k div 2) x l
      = warp_reduce_sum_loop (2 ^ k div 2) (\<lambda>lid. x lid + permute_sub_group_by_xor x (2 ^ k) lid) l"
    by (subst warp_reduce_sum_loop.simps) (simp add: drop_bit_eq_div)
  also have "\<dots> = (\<Sum>j\<in>lane_block k l. x j + permute_sub_group_by_xor x (2 ^ k) j)"
    using Suc by simp
  also have "\<dots> = (\<Sum>j\<in>lane_block k l. x j + x (j XOR 2 ^ k))"
    using Suc.prems by (simp add: permute_xor_pow)
  finally show ?case by (simp only: sum_lane_block_Suc)
qed

lemma warp_reduce_sum_block:
  fixes x :: "nat \<Rightarrow> 'a::comm_monoid_add"
  shows "warp_reduce_sum x l = (\<Sum>j\<in>lane_block 5 l. x j)"
  using warp_reduce_sum_loop_blocks[of 5 x l] by (simp add: warp_reduce_sum_def)

lemma warp_reduce_sum_lanes:
  fixes x :: "nat \<Rightarrow> 'a::comm_monoid_add"
  shows "l < 32 \<Longrightarrow> warp_reduce_sum x l = (\<Sum>j<32. x j)"
  using lane_block_full[of l 5] by (simp add: warp_reduce_sum_block)


lemma lane_block_ne: "lane_block k l \<noteq> {}"
  using lane_block_self by blast

lemma Max_image_max:
  fixes f g :: "nat \<Rightarrow> 'a::linorder"
  assumes "finite A" "A \<noteq> {}"
  shows "Max ((\<lambda>j. max (f j) (g j)) ` A) = max (Max (f ` A)) (Max (g ` A))"
  using assms
proof (induction A rule: finite_ne_induct)
  case (singleton a)
  show ?case by simp
next
  case (insert a A)
  then show ?case by (simp add: max.assoc max.left_commute)
qed

lemma Max_lane_block_Suc:
  fixes x :: "nat \<Rightarrow> 'a::linorder"
  shows "Max (x ` lane_block (Suc k) l) = Max ((\<lambda>j. max (x j) (x (j XOR 2 ^ k))) ` lane_block k l)"
proof -
  have "x ` lane_block (Suc k) l = x ` lane_block k l \<union> (\<lambda>j. x (j XOR 2 ^ k)) ` lane_block k l"
    by (simp add: lane_block_Suc image_Un image_image)
  then have "Max (x ` lane_block (Suc k) l)
      = max (Max (x ` lane_block k l)) (Max ((\<lambda>j. x (j XOR 2 ^ k)) ` lane_block k l))"
    by (simp add: Max_Un finite_lane_block lane_block_ne)
  then show ?thesis
    by (simp add: Max_image_max finite_lane_block lane_block_ne)
qed

lemma warp_reduce_max_loop_blocks:
  fixes x :: "nat \<Rightarrow> 'a::linorder"
  shows "k \<le> 5 \<Longrightarrow> warp_reduce_max_loop (2 ^ k div 2) x l = Max (x ` lane_block k l)"
proof (induction k arbitrary: x)
  case 0
  show ?case by (simp add: lane_block_0 warp_reduce_max_loop_0)
next
  case (Suc k)
  have "warp_reduce_max_loop (2 ^ Suc k div 2) x l
      = warp_reduce_max_loop (2 ^ k div 2) (\<lambda>lid. max (x lid) (permute_sub_group_by_xor x (2 ^ k) lid)) l"
    by (subst warp_reduce_max_loop.simps) (simp add: drop_bit_eq_div)
  also have "\<dots> = Max ((\<lambda>j. max (x j) (permute_sub_group_by_xor x (2 ^ k) j)) ` lane_block k l)"
    using Suc by simp
  also have "\<dots> = Max ((\<lambda>j. max (x j) (x (j XOR 2 ^ k))) ` lane_block k l)"
    using Suc.prems by (simp add: permute_xor_pow)
  finally show ?case by (simp only: Max_lane_block_Suc)
qed

lemma warp_reduce_max_block:
  fixes x :: "nat \<Rightarrow> 'a::linorder"
  shows "warp_reduce_max x l = Max (x ` lane_block 5 l)"
  using warp_reduce_max_loop_blocks[of 5 x l] by (simp add: warp_reduce_max_def)

lemma warp_reduce_max_lanes:
  fixes x :: "nat \<Rightarrow> 'a::linorder"
  shows "l < 32 \<Longrightarrow> warp_reduce_max x l = Max (x ` {..<32})"
  using lane_block_full[of l 5] by (simp add: warp_reduce_max_block)

text \<open>
  Claim C8. \<^verbatim>\<open>warp_reduce_sum\<close> and \<^verbatim>\<open>warp_reduce_max\<close> perform exactly five XOR-shuffle
  exchange steps, with the masks 16, 8, 4, 2, 1 in this order, and for every assignment of
  values to the 32 lanes of a sub-group every lane ends with the sum, respectively the maximum,
  of the 32 input values (in exact arithmetic).
\<close>

theorem warp_reduce_all_lanes:
  fixes x y :: "nat \<Rightarrow> real"
  shows "warp_reduce_sum x = xor_step (+) 1 (xor_step (+) 2 (xor_step (+) 4 (xor_step (+) 8 (xor_step (+) 16 x))))
       \<and> warp_reduce_max y = xor_step max 1 (xor_step max 2 (xor_step max 4 (xor_step max 8 (xor_step max 16 y))))
       \<and> (\<forall>lane<32. warp_reduce_sum x lane = (\<Sum>j<32. x j))
       \<and> (\<forall>lane<32. warp_reduce_max y lane = Max (y ` {..<32}))"
proof (intro conjI allI impI)
  show "warp_reduce_sum x = xor_step (+) 1 (xor_step (+) 2 (xor_step (+) 4 (xor_step (+) 8 (xor_step (+) 16 x))))"
    by (rule warp_reduce_sum_steps)
  show "warp_reduce_max y = xor_step max 1 (xor_step max 2 (xor_step max 4 (xor_step max 8 (xor_step max 16 y))))"
    by (rule warp_reduce_max_steps)
  show "warp_reduce_sum x lane = (\<Sum>j<32. x j)" if "lane < 32" for lane
    using that by (rule warp_reduce_sum_lanes)
  show "warp_reduce_max y lane = Max (y ` {..<32})" if "lane < 32" for lane
    using that by (rule warp_reduce_max_lanes)
qed

theorem warp_reduce_all_lanes_witness:
  "(3::nat) < 32 \<and> warp_reduce_sum (\<lambda>l. real l) 3 = 496 \<and> warp_reduce_max (\<lambda>l. real l) 3 = 31"
proof -
  have s: "(\<Sum>j<32. real j) = 496"
    by (simp add: lessThan_nat_numeral lessThan_Suc)
  have m: "Max ((\<lambda>l. real l) ` {..<32}) = 31"
    by (simp add: lessThan_nat_numeral lessThan_Suc)
  note t = warp_reduce_all_lanes[of "\<lambda>l. real l" "\<lambda>l. real l"]
  have "warp_reduce_sum (\<lambda>l. real l) 3 = (\<Sum>j<32. real j)"
    using t[THEN conjunct2, THEN conjunct2, THEN conjunct1, rule_format, of 3] by simp
  moreover have "warp_reduce_max (\<lambda>l. real l) 3 = Max ((\<lambda>l. real l) ` {..<32})"
    using t[THEN conjunct2, THEN conjunct2, THEN conjunct2, rule_format, of 3] by simp
  ultimately show ?thesis by (simp only: s m) simp
qed


section \<open>The precondition of the argsort launcher\<close>





text \<open>
  The row length that reaches the launcher is positive: its one caller, \<^verbatim>\<open>ggml_sycl_op_argsort\<close>,
  passes \<^verbatim>\<open>src0->ne[0]\<close>, and the loop over the nodes of the graph skips a node that
  \<^verbatim>\<open>ggml_is_empty\<close> before it dispatches on the operation.
\<close>



text \<open>
  The hypothesis of a positive length is not idle: the length 0, which the launcher is never
  called with, would pass the assertion.
\<close>

lemma argsort_zero_length:
  "\<not> is_power_of_two (sint (0 :: 32 word))
   \<and> argsort_f32_i32_sycl 0 nrows order =
       Inr \<lparr> kernel_order = order, kernel_ncols = 0, block_dims = (1, 1, 0), block_nums = (1, scast nrows, 1) \<rparr>"
  by (auto simp: argsort_f32_i32_sycl_def is_power_of_two_def)

section \<open>The scan of the pool finds the best fit below the threshold\<close>

lemma pool_scan_unfold:
  "i < MAX_SYCL_BUFFERS \<Longrightarrow>
   pool_scan pool sz i best_diff ibest =
     (if fits pool sz i \<and> surplus pool sz i < best_diff
      then (if surplus pool sz i = 0 then Scan_return i
            else pool_scan pool sz (i + 1) (surplus pool sz i) (int i))
      else pool_scan pool sz (i + 1) best_diff ibest)"
  by (subst pool_scan.simps) (simp add: Let_def fits_def surplus_def)

lemma pool_scan_end:
  "\<not> i < MAX_SYCL_BUFFERS \<Longrightarrow> pool_scan pool sz i best_diff ibest = Scan_done best_diff ibest"
  by (subst pool_scan.simps) simp

lemma scan_inv_skip:
  assumes "scan_inv pool sz i best_diff ibest"
    and "\<not> (fits pool sz i \<and> surplus pool sz i < best_diff)"
  shows "scan_inv pool sz (i + 1) best_diff ibest"
  using assms unfolding scan_inv_def
  by (auto simp: less_Suc_eq)

lemma scan_inv_better:
  assumes "scan_inv pool sz i best_diff ibest"
    and "fits pool sz i" "surplus pool sz i < best_diff"
  shows "scan_inv pool sz (i + 1) (surplus pool sz i) (int i)"
  using assms unfolding scan_inv_def
  by (auto simp: less_Suc_eq)

lemma pool_scan_post_aux:
  "i + n = MAX_SYCL_BUFFERS \<Longrightarrow> scan_inv pool sz i best_diff ibest \<Longrightarrow>
   scan_post pool sz (pool_scan pool sz i best_diff ibest)"
proof (induction n arbitrary: i best_diff ibest)
  case 0
  then show ?case by (simp add: pool_scan_end scan_post_def)
next
  case (Suc n)
  then have lt: "i < MAX_SYCL_BUFFERS" and nx: "(i + 1) + n = MAX_SYCL_BUFFERS" by simp_all
  show ?case
  proof (cases "fits pool sz i \<and> surplus pool sz i < best_diff")
    case False
    then have "pool_scan pool sz i best_diff ibest = pool_scan pool sz (i + 1) best_diff ibest"
      by (simp only: pool_scan_unfold[OF lt] if_False)
    moreover have "scan_post pool sz (pool_scan pool sz (i + 1) best_diff ibest)"
      by (rule Suc.IH[OF nx scan_inv_skip[OF Suc.prems(2) False]])
    ultimately show ?thesis by simp
  next
    case True
    show ?thesis
    proof (cases "surplus pool sz i = 0")
      case z: True
      with True lt show ?thesis
        by (simp add: pool_scan_unfold[OF lt] scan_post_def)
    next
      case nz: False
      have "scan_post pool sz (pool_scan pool sz (i + 1) (surplus pool sz i) (int i))"
        using True by (intro Suc.IH[OF nx] scan_inv_better[OF Suc.prems(2)]) simp_all
      with True nz show ?thesis
        by (simp add: pool_scan_unfold[OF lt])
    qed
  qed
qed

lemma scan_inv_init: "scan_inv pool sz 0 (2 ^ 36) (- 1)"
  unfolding scan_inv_def by simp

lemma pool_scan_post: "scan_post pool sz (pool_scan pool sz 0 (2 ^ 36) (- 1))"
  by (rule pool_scan_post_aux[of 0 MAX_SYCL_BUFFERS, OF _ scan_inv_init]) simp

lemma pool_malloc_reuse:
  assumes "j < MAX_SYCL_BUFFERS" "fits (g_sycl_buffer_pool st device_index) sz j"
    and "surplus (g_sycl_buffer_pool st device_index) sz j < 2 ^ 36"
  shows "\<exists>k<MAX_SYCL_BUFFERS. fits (g_sycl_buffer_pool st device_index) sz k
           \<and> surplus (g_sycl_buffer_pool st device_index) sz k < 2 ^ 36
           \<and> (\<forall>j<MAX_SYCL_BUFFERS. fits (g_sycl_buffer_pool st device_index) sz j \<longrightarrow>
                 surplus (g_sycl_buffer_pool st device_index) sz k \<le> surplus (g_sycl_buffer_pool st device_index) sz j)
           \<and> ggml_sycl_pool_malloc_leg malloc_device device_index sz st = Inr (take_slot device_index k st)"
proof -
  define pool where "pool = g_sycl_buffer_pool st device_index"
  define r where "r = pool_scan pool sz 0 (2 ^ 36) (- 1)"
  have post: "scan_post pool sz r" unfolding r_def by (rule pool_scan_post)
  show ?thesis
  proof (cases r)
    case (Scan_return k)
    with post have "k < MAX_SYCL_BUFFERS" "fits pool sz k" "surplus pool sz k = 0"
      by (simp_all add: scan_post_def)
    moreover have "ggml_sycl_pool_malloc_leg malloc_device device_index sz st = Inr (take_slot device_index k st)"
      using Scan_return by (simp add: ggml_sycl_pool_malloc_leg_def r_def pool_def)
    ultimately show ?thesis unfolding pool_def[symmetric] by (intro exI[of _ k]) simp
  next
    case (Scan_done bd ib)
    with post have inv: "scan_inv pool sz MAX_SYCL_BUFFERS bd ib" by (simp add: scan_post_def)
    have nb: "\<not> (ib = - 1 \<and> bd = 2 ^ 36 \<and> (\<forall>j<MAX_SYCL_BUFFERS. fits pool sz j \<longrightarrow> 2 ^ 36 \<le> surplus pool sz j))"
      using assms unfolding pool_def[symmetric] by (auto simp: not_le)
    with inv have k: "0 \<le> ib" "nat ib < MAX_SYCL_BUFFERS" "fits pool sz (nat ib)"
        "surplus pool sz (nat ib) = bd" "bd < 2 ^ 36"
        "\<forall>j<MAX_SYCL_BUFFERS. fits pool sz j \<longrightarrow> bd \<le> surplus pool sz j"
      unfolding scan_inv_def by blast+
    have "ggml_sycl_pool_malloc_leg malloc_device device_index sz st = Inr (take_slot device_index (nat ib) st)"
      using Scan_done k(1) by (simp add: ggml_sycl_pool_malloc_leg_def r_def pool_def)
    with k show ?thesis unfolding pool_def[symmetric] by (intro exI[of _ "nat ib"]) simp
  qed
qed

lemma pool_malloc_fresh:
  assumes "\<forall>j<MAX_SYCL_BUFFERS. fits (g_sycl_buffer_pool st device_index) sz j \<longrightarrow>
              2 ^ 36 \<le> surplus (g_sycl_buffer_pool st device_index) sz j"
  shows "ggml_sycl_pool_malloc_leg malloc_device device_index sz st = fresh_result malloc_device device_index sz st"
proof -
  define pool where "pool = g_sycl_buffer_pool st device_index"
  define r where "r = pool_scan pool sz 0 (2 ^ 36) (- 1)"
  have post: "scan_post pool sz r" unfolding r_def by (rule pool_scan_post)
  have a: "\<forall>j<MAX_SYCL_BUFFERS. fits pool sz j \<longrightarrow> 2 ^ 36 \<le> surplus pool sz j"
    using assms by (simp add: pool_def)
  show ?thesis
  proof (cases r)
    case (Scan_return k)
    with post have "k < MAX_SYCL_BUFFERS" "fits pool sz k" "surplus pool sz k = 0"
      by (simp_all add: scan_post_def)
    with a have False by fastforce
    then show ?thesis ..
  next
    case (Scan_done bd ib)
    with post have inv: "scan_inv pool sz MAX_SYCL_BUFFERS bd ib" by (simp add: scan_post_def)
    have "ib = - 1"
    proof (rule ccontr)
      assume "ib \<noteq> - 1"
      with inv have "nat ib < MAX_SYCL_BUFFERS" "fits pool sz (nat ib)" "surplus pool sz (nat ib) < 2 ^ 36"
        unfolding scan_inv_def by auto
      with a show False by fastforce
    qed
    with Scan_done show ?thesis
      by (simp add: ggml_sycl_pool_malloc_leg_def r_def pool_def fresh_result_def)
  qed
qed

lemma bit_length_le: "n < 2 ^ k \<Longrightarrow> bit_length n \<le> k"
proof (induction k arbitrary: n)
  case 0
  then show ?case by (simp add: bit_length.simps)
next
  case (Suc k)
  show ?case
  proof (cases "n = 0")
    case True then show ?thesis by (simp add: bit_length.simps)
  next
    case False
    from Suc.prems have "n div 2 < 2 ^ k" by simp
    then have "bit_length (n div 2) \<le> k" by (rule Suc.IH)
    with False show ?thesis by (subst bit_length.simps) simp
  qed
qed

lemma round_to_53_small: "n < 2 ^ 53 \<Longrightarrow> round_to_53 n = n"
  using bit_length_le[of n 53] by (simp add: round_to_53_def)


lemma round_to_53_bounds:
  assumes "n < 2 ^ (53 + k)"
  shows "\<exists>e\<le>k. (n div 2 ^ e) * 2 ^ e \<le> round_to_53 n \<and> round_to_53 n \<le> (n div 2 ^ e) * 2 ^ e + 2 ^ e"
proof (cases "bit_length n \<le> 53")
  case True
  then have "round_to_53 n = n" by (simp add: round_to_53_def)
  then show ?thesis by (intro exI[of _ 0]) simp
next
  case False
  define e where "e = bit_length n - 53"
  have "bit_length n \<le> 53 + k" using assms by (rule bit_length_le)
  then have ek: "e \<le> k" by (simp add: e_def)
  define q where "q = n div 2 ^ e"
  have r: "round_to_53 n = q * 2 ^ e \<or> round_to_53 n = (q + 1) * 2 ^ e"
    using False by (auto simp: round_to_53_def Let_def e_def q_def)
  then have "q * 2 ^ e \<le> round_to_53 n \<and> round_to_53 n \<le> q * 2 ^ e + 2 ^ e"
    by (auto simp: algebra_simps)
  with ek show ?thesis unfolding q_def by blast
qed


lemma double_1_05_times_exact:
  assumes "sz < 2 ^ 47"
  shows "double_1_05_times sz = 21 * sz div 20"
proof -
  define m where "m = 4728779608739021 * sz"
  define T where "T = 21 * sz div 20"
  define N where "N = round_to_53 m"
  have sz47: "sz < 140737488355328" using assms by simp
  have sz: "round_to_53 sz = sz"
    using sz47 by (intro round_to_53_small) simp
  have m20: "20 * m = 94575592174780416 * sz + 4 * sz"
    by (simp add: m_def)
  have "m < 2 ^ 53 * 2 ^ 47"
    unfolding m_def using assms by (intro mult_strict_mono) simp_all
  then have "m < 2 ^ (53 + 47)" by (simp add: power_add)
  from round_to_53_bounds[OF this] obtain e where e: "e \<le> 47"
    and lo: "(m div 2 ^ e) * 2 ^ e \<le> N" and hi: "N \<le> (m div 2 ^ e) * 2 ^ e + 2 ^ e"
    unfolding N_def by blast
  define E :: nat where "E = 2 ^ e"
  define F :: nat where "F = 2 ^ (52 - e)"
  have E0: "0 < E" by (simp add: E_def)
  have "E \<le> 2 ^ 47" unfolding E_def using e by (intro power_increasing) simp_all
  then have E47: "E \<le> 140737488355328" by simp
  have "F * E = 2 ^ 52"
    using e by (simp add: E_def F_def power_add[symmetric])
  then have FE: "F * E = 4503599627370496" by simp
  have lo': "(m div E) * E \<le> N" and hi': "N \<le> (m div E) * E + E"
    using lo hi by (simp_all add: E_def)
  have T1: "20 * T \<le> 21 * sz" unfolding T_def by arith
  have T2: "21 * sz < 20 * T + 20" unfolding T_def by arith
  have Tm: "T * 4503599627370496 \<le> m" using T1 m20 by linarith
  then have "(T * F) * E \<le> m" by (simp add: FE[symmetric] mult.assoc)
  then have "T * F \<le> m div E" using E0 by (simp add: less_eq_div_iff_mult_less_eq)
  then have "(T * F) * E \<le> (m div E) * E" by (rule mult_le_mono1)
  with lo' have "(T * F) * E \<le> N" by linarith
  then have "T * (F * E) \<le> N" by (simp only: mult.assoc)
  then have TN: "T * 4503599627370496 \<le> N" by (simp only: FE)
  then have ge: "T \<le> N div 4503599627370496"
    by (simp add: less_eq_div_iff_mult_less_eq)
  have "(m div E) * E \<le> m" by simp
  with hi' have "N \<le> m + E" by linarith
  with E47 have "20 * N \<le> 20 * m + 20 * 140737488355328" by linarith
  moreover have "21 * sz \<le> 20 * T + 19" using T2 by linarith
  then have "4503599627370496 * (21 * sz) \<le> 4503599627370496 * (20 * T + 19)"
    by (rule mult_le_mono2)
  then have "94575592174780416 * sz \<le> 90071992547409920 * T + 85568392920039424"
    by simp
  ultimately have "20 * N < 90071992547409920 * T + 90071992547409920"
    using m20 sz47 by linarith
  then have "N < (T + 1) * 4503599627370496" by simp
  then have le: "N div 4503599627370496 < T + 1"
    by (simp add: div_less_iff_less_mult)
  from ge le have "N div 4503599627370496 = T" by linarith
  then show ?thesis
    by (simp add: double_1_05_times_def sz N_def m_def T_def)
qed


lemma look_ahead_size_exact:
  assumes "sz < 2 ^ 47"
  shows "look_ahead_size sz = 256 * ((21 * sz div 20 + 255) div 256)"
proof -
  define T where "T = 21 * sz div 20"
  have "sz < 140737488355328" using assms by simp
  then have T48: "T < 281474976710656" unfolding T_def by arith
  then have a: "T mod 2 ^ 64 = T" by simp
  have b: "(T + 255) mod 2 ^ 64 = T + 255" using T48 by simp
  have "256 * ((T + 255) div 256) \<le> T + 255" by simp
  with T48 have c: "(256 * ((T + 255) div 256)) mod 2 ^ 64 = 256 * ((T + 255) div 256)"
    by (intro mod_less) simp
  show ?thesis
    unfolding look_ahead_size_def Let_def double_1_05_times_exact[OF assms] T_def[symmetric]
    by (simp only: a b c)
qed

lemma look_ahead_size_ge:
  assumes "sz < 2 ^ 47"
  shows "sz \<le> look_ahead_size sz" "256 dvd look_ahead_size sz" "look_ahead_size sz < 2 ^ 64"
proof -
  have s: "sz < 140737488355328" using assms by simp
  show "sz \<le> look_ahead_size sz"
    unfolding look_ahead_size_exact[OF assms] by arith
  show "256 dvd look_ahead_size sz"
    unfolding look_ahead_size_exact[OF assms] by simp
  show "look_ahead_size sz < 2 ^ 64"
    unfolding look_ahead_size_exact[OF assms] using s by simp
qed


text \<open>
  Claim C5 (as amended). If some resident buffer of the device fits the request with a surplus below
  \<open>2 ^ 36\<close>, the call returns a resident buffer that fits and whose surplus is minimal among
  all resident buffers that fit, leaves its slot empty and stores the size of that buffer to
  \<^verbatim>\<open>*actual_size\<close>. Otherwise it asks the device for a buffer of \<open>look_ahead_size sz\<close> bytes, stores this
  size to \<^verbatim>\<open>*actual_size\<close>, adds it to the pool size of the device and leaves the slots as they are;
  for requests below \<open>2 ^ 47\<close> bytes this size is \<open>1.05 * sz\<close> without its fraction, rounded up to
  a multiple of 256.
\<close>

theorem pool_malloc_best_fit_or_fresh:
  assumes "pool = g_sycl_buffer_pool st device_index"
  shows "((\<exists>j<MAX_SYCL_BUFFERS. fits pool sz j \<and> surplus pool sz j < 2 ^ 36) \<longrightarrow>
            (\<exists>k<MAX_SYCL_BUFFERS. fits pool sz k
               \<and> (\<forall>j<MAX_SYCL_BUFFERS. fits pool sz j \<longrightarrow> surplus pool sz k \<le> surplus pool sz j)
               \<and> ggml_sycl_pool_malloc_leg malloc_device device_index sz st =
                   Inr (ptr (pool k), size_b (pool k),
                        st\<lparr> g_sycl_buffer_pool := (g_sycl_buffer_pool st)(device_index := pool(k := empty_buffer)) \<rparr>)))
       \<and> (\<not> (\<exists>j<MAX_SYCL_BUFFERS. fits pool sz j \<and> surplus pool sz j < 2 ^ 36) \<longrightarrow>
            ggml_sycl_pool_malloc_leg (Some p) device_index sz st =
              Inr (p, look_ahead_size sz,
                   st\<lparr> g_sycl_pool_size :=
                         (g_sycl_pool_size st)(device_index :=
                            (g_sycl_pool_size st device_index + look_ahead_size sz) mod 2 ^ 64),
                       device_calls := device_calls st @ [Malloc_device (look_ahead_size sz) p] \<rparr>))
       \<and> (sz < 2 ^ 47 \<longrightarrow> look_ahead_size sz = 256 * ((21 * sz div 20 + 255) div 256))"
proof (intro conjI impI)
  assume "\<exists>j<MAX_SYCL_BUFFERS. fits pool sz j \<and> surplus pool sz j < 2 ^ 36"
  then obtain j where "j < MAX_SYCL_BUFFERS" "fits pool sz j" "surplus pool sz j < 2 ^ 36" by blast
  from pool_malloc_reuse[OF this[unfolded assms], of malloc_device]
  show "\<exists>k<MAX_SYCL_BUFFERS. fits pool sz k
               \<and> (\<forall>j<MAX_SYCL_BUFFERS. fits pool sz j \<longrightarrow> surplus pool sz k \<le> surplus pool sz j)
               \<and> ggml_sycl_pool_malloc_leg malloc_device device_index sz st =
                   Inr (ptr (pool k), size_b (pool k),
                        st\<lparr> g_sycl_buffer_pool := (g_sycl_buffer_pool st)(device_index := pool(k := empty_buffer)) \<rparr>)"
    unfolding assms take_slot_def Let_def by blast
next
  assume "\<not> (\<exists>j<MAX_SYCL_BUFFERS. fits pool sz j \<and> surplus pool sz j < 2 ^ 36)"
  then have "\<forall>j<MAX_SYCL_BUFFERS. fits (g_sycl_buffer_pool st device_index) sz j \<longrightarrow>
              2 ^ 36 \<le> surplus (g_sycl_buffer_pool st device_index) sz j"
    unfolding assms by (auto simp: not_less)
  from pool_malloc_fresh[OF this, of "Some p"]
  show "ggml_sycl_pool_malloc_leg (Some p) device_index sz st =
              Inr (p, look_ahead_size sz,
                   st\<lparr> g_sycl_pool_size :=
                         (g_sycl_pool_size st)(device_index :=
                            (g_sycl_pool_size st device_index + look_ahead_size sz) mod 2 ^ 64),
                       device_calls := device_calls st @ [Malloc_device (look_ahead_size sz) p] \<rparr>)"
    by (simp add: fresh_result_def)
next
  assume "sz < 2 ^ 47"
  then show "look_ahead_size sz = 256 * ((21 * sz div 20 + 255) div 256)"
    by (rule look_ahead_size_exact)
qed

lemma two_buffers_pool:
  "g_sycl_buffer_pool two_buffers 0 =
     (\<lambda>i. if i = 0 then \<lparr> ptr = 4096, size_b = 1024 \<rparr> else if i = 3 then \<lparr> ptr = 8192, size_b = 600 \<rparr> else empty_buffer)"
  by (auto simp: two_buffers_def pool_state_of_def fun_eq_iff)

theorem pool_malloc_best_fit_or_fresh_witness:
  "ggml_sycl_pool_malloc_leg None 0 512 two_buffers =
     Inr (8192, 600,
          two_buffers\<lparr> g_sycl_buffer_pool :=
             (g_sycl_buffer_pool two_buffers)(0 := (g_sycl_buffer_pool two_buffers 0)(3 := empty_buffer)) \<rparr>)
   \<and> ggml_sycl_pool_malloc_leg (Some 12288) 0 2048 two_buffers =
     Inr (12288, 2304,
          two_buffers\<lparr> g_sycl_pool_size := (g_sycl_pool_size two_buffers)(0 := 3928),
                       device_calls := device_calls two_buffers @ [Malloc_device 2304 12288] \<rparr>)"
proof -
  define pool where "pool = g_sycl_buffer_pool two_buffers 0"
  note t = pool_malloc_best_fit_or_fresh[OF pool_def, of _ None]
  have p: "pool = (\<lambda>i. if i = 0 then \<lparr> ptr = 4096, size_b = 1024 \<rparr> else if i = 3 then \<lparr> ptr = 8192, size_b = 600 \<rparr> else empty_buffer)"
    unfolding pool_def by (rule two_buffers_pool)
  have f3: "fits pool 512 3" "surplus pool 512 3 = 88"
    by (simp_all add: p fits_def surplus_def)
  then have "\<exists>j<MAX_SYCL_BUFFERS. fits pool 512 j \<and> surplus pool 512 j < 2 ^ 36"
    by (intro exI[of _ 3]) (simp add: MAX_SYCL_BUFFERS_def)
  with t[of 512] obtain k where k: "k < MAX_SYCL_BUFFERS" "fits pool 512 k"
      "\<forall>j<MAX_SYCL_BUFFERS. fits pool 512 j \<longrightarrow> surplus pool 512 k \<le> surplus pool 512 j"
      "ggml_sycl_pool_malloc_leg None 0 512 two_buffers =
         Inr (ptr (pool k), size_b (pool k),
              two_buffers\<lparr> g_sycl_buffer_pool := (g_sycl_buffer_pool two_buffers)(0 := pool(k := empty_buffer)) \<rparr>)"
    by blast
  from k(3)[rule_format, of 3] f3 have "surplus pool 512 k \<le> 88" by (simp add: MAX_SYCL_BUFFERS_def)
  with k(2) have "k = 3"
    by (auto simp: p fits_def surplus_def empty_buffer_def split: if_splits)
  moreover have "ptr (pool 3) = 8192" "size_b (pool 3) = 600"
    by (simp_all add: p)
  ultimately have "ggml_sycl_pool_malloc_leg None 0 512 two_buffers =
     Inr (8192, 600,
          two_buffers\<lparr> g_sycl_buffer_pool := (g_sycl_buffer_pool two_buffers)(0 := pool(3 := empty_buffer)) \<rparr>)"
    using k(4) by (simp only:)
  then have one: "ggml_sycl_pool_malloc_leg None 0 512 two_buffers =
     Inr (8192, 600,
          two_buffers\<lparr> g_sycl_buffer_pool :=
             (g_sycl_buffer_pool two_buffers)(0 := (g_sycl_buffer_pool two_buffers 0)(3 := empty_buffer)) \<rparr>)"
    by (simp only: pool_def)
  have "\<not> (\<exists>j<MAX_SYCL_BUFFERS. fits pool 2048 j \<and> surplus pool 2048 j < 2 ^ 36)"
    by (auto simp: p fits_def surplus_def empty_buffer_def)
  with t[of 2048 12288] have "ggml_sycl_pool_malloc_leg (Some 12288) 0 2048 two_buffers =
              Inr (12288, look_ahead_size 2048,
                   two_buffers\<lparr> g_sycl_pool_size :=
                         (g_sycl_pool_size two_buffers)(0 :=
                            (g_sycl_pool_size two_buffers 0 + look_ahead_size 2048) mod 2 ^ 64),
                       device_calls := device_calls two_buffers @ [Malloc_device (look_ahead_size 2048) 12288] \<rparr>)"
      and "look_ahead_size 2048 = 256 * ((21 * 2048 div 20 + 255) div 256)"
    by simp_all
  moreover have "g_sycl_pool_size two_buffers 0 = 1624"
    by (simp add: two_buffers_def pool_state_of_def)
  ultimately have two: "ggml_sycl_pool_malloc_leg (Some 12288) 0 2048 two_buffers =
     Inr (12288, 2304,
          two_buffers\<lparr> g_sycl_pool_size := (g_sycl_pool_size two_buffers)(0 := 3928),
                       device_calls := device_calls two_buffers @ [Malloc_device 2304 12288] \<rparr>)"
    by simp
  from one two show ?thesis by (rule conjI)
qed


lemma pool_state_of_single:
  "g_sycl_buffer_pool (pool_state_of [(i, b)]) 0 = (\<lambda>j. if j = i then b else empty_buffer)"
  by (auto simp: pool_state_of_def fun_eq_iff)

lemma look_ahead_size_16: "look_ahead_size 16 = 256"
  by (subst look_ahead_size_exact) simp_all

text \<open>
  Claim C5 as first stated does not hold: a resident buffer of \<open>2 ^ 36 + 16\<close> bytes is large
  enough for a request of 16 bytes, and still the call asks the device for a fresh buffer of
  256 bytes and leaves the resident one in its slot.
\<close>

theorem pool_malloc_skips_large_buffer:
  "(0::nat) < MAX_SYCL_BUFFERS \<and> fits (g_sycl_buffer_pool huge_buffer 0) 16 0
   \<and> ggml_sycl_pool_malloc_leg (Some 8192) 0 16 huge_buffer =
       Inr (8192, 256,
            huge_buffer\<lparr> g_sycl_pool_size := (g_sycl_pool_size huge_buffer)(0 := 68719477008),
                         device_calls := device_calls huge_buffer @ [Malloc_device 256 8192] \<rparr>)"
proof -
  have p: "g_sycl_buffer_pool huge_buffer 0 = (\<lambda>j. if j = 0 then \<lparr> ptr = 4096, size_b = 68719476752 \<rparr> else empty_buffer)"
    unfolding huge_buffer_def by (rule pool_state_of_single)
  have "\<forall>j<MAX_SYCL_BUFFERS. fits (g_sycl_buffer_pool huge_buffer 0) 16 j \<longrightarrow>
              2 ^ 36 \<le> surplus (g_sycl_buffer_pool huge_buffer 0) 16 j"
    by (simp add: p fits_def surplus_def empty_buffer_def)
  from pool_malloc_fresh[OF this, of "Some 8192"]
  have "ggml_sycl_pool_malloc_leg (Some 8192) 0 16 huge_buffer = fresh_result (Some 8192) 0 16 huge_buffer" .
  moreover have "g_sycl_pool_size huge_buffer 0 = 68719476752"
    by (simp add: huge_buffer_def pool_state_of_def)
  ultimately have "ggml_sycl_pool_malloc_leg (Some 8192) 0 16 huge_buffer =
       Inr (8192, 256,
            huge_buffer\<lparr> g_sycl_pool_size := (g_sycl_pool_size huge_buffer)(0 := 68719477008),
                         device_calls := device_calls huge_buffer @ [Malloc_device 256 8192] \<rparr>)"
    by (simp add: fresh_result_def look_ahead_size_16)
  moreover have "fits (g_sycl_buffer_pool huge_buffer 0) 16 0"
    by (simp add: p fits_def)
  ultimately show ?thesis by (simp add: MAX_SYCL_BUFFERS_def)
qed

text \<open>
  Claim C9. A resident buffer is reused only when its surplus is below \<open>2 ^ 36\<close> bytes: whenever
  every resident buffer of the device that is large enough for the request has a surplus of at
  least \<open>2 ^ 36\<close>, the pool is left as it is and the device is asked for a fresh buffer.
\<close>

theorem pool_malloc_threshold:
  assumes "pool = g_sycl_buffer_pool st device_index"
    and "\<forall>j<MAX_SYCL_BUFFERS. fits pool sz j \<longrightarrow> 2 ^ 36 \<le> surplus pool sz j"
  shows "\<exists>st'. ggml_sycl_pool_malloc_leg (Some p) device_index sz st = Inr (p, look_ahead_size sz, st')
           \<and> g_sycl_buffer_pool st' = g_sycl_buffer_pool st
           \<and> device_calls st' = device_calls st @ [Malloc_device (look_ahead_size sz) p]
           \<and> malloc_device_count st' = malloc_device_count st + 1"
proof -
  from assms have "\<forall>j<MAX_SYCL_BUFFERS. fits (g_sycl_buffer_pool st device_index) sz j \<longrightarrow>
              2 ^ 36 \<le> surplus (g_sycl_buffer_pool st device_index) sz j"
    by simp
  from pool_malloc_fresh[OF this, of "Some p"] show ?thesis
    by (simp add: fresh_result_def malloc_device_count_def)
qed

theorem pool_malloc_threshold_witness:
  "(5::nat) < MAX_SYCL_BUFFERS \<and> fits (g_sycl_buffer_pool parked_buffer 0) 4096 5
   \<and> surplus (g_sycl_buffer_pool parked_buffer 0) 4096 5 = 2 ^ 36
   \<and> (\<exists>st'. ggml_sycl_pool_malloc_leg (Some 8192) 0 4096 parked_buffer = Inr (8192, 4352, st')
          \<and> malloc_device_count st' = 2)"
proof -
  have p: "g_sycl_buffer_pool parked_buffer 0 = (\<lambda>j. if j = 5 then \<lparr> ptr = 4096, size_b = 68719480832 \<rparr> else empty_buffer)"
    unfolding parked_buffer_def by (rule pool_state_of_single)
  have h: "\<forall>j<MAX_SYCL_BUFFERS. fits (g_sycl_buffer_pool parked_buffer 0) 4096 j \<longrightarrow>
              2 ^ 36 \<le> surplus (g_sycl_buffer_pool parked_buffer 0) 4096 j"
    by (simp add: p fits_def surplus_def empty_buffer_def)
  have l: "look_ahead_size 4096 = 4352"
    by (subst look_ahead_size_exact) simp_all
  have c: "malloc_device_count parked_buffer = 1"
    by (simp add: parked_buffer_def pool_state_of_def malloc_device_count_def)
  from pool_malloc_threshold[OF refl h, of 8192]
  have "\<exists>st'. ggml_sycl_pool_malloc_leg (Some 8192) 0 4096 parked_buffer = Inr (8192, 4352, st')
          \<and> malloc_device_count st' = 2"
    by (auto simp: l c)
  moreover have "fits (g_sycl_buffer_pool parked_buffer 0) 4096 5" 
    "surplus (g_sycl_buffer_pool parked_buffer 0) 4096 5 = 2 ^ 36"
    by (simp_all add: p fits_def surplus_def)
  ultimately show ?thesis by (simp add: MAX_SYCL_BUFFERS_def)
qed


section \<open>Releasing to the pool and allocating again\<close>

lemma first_empty_slot_unfold:
  "i < MAX_SYCL_BUFFERS \<Longrightarrow>
   first_empty_slot pool i = (if ptr (pool i) = 0 then Some i else first_empty_slot pool (i + 1))"
  by (subst first_empty_slot.simps) simp

lemma first_empty_slot_end:
  "\<not> i < MAX_SYCL_BUFFERS \<Longrightarrow> first_empty_slot pool i = None"
  by (subst first_empty_slot.simps) simp

lemma first_empty_slot_Some_aux:
  "i + n = MAX_SYCL_BUFFERS \<Longrightarrow> first_empty_slot pool i = Some k \<Longrightarrow>
   k < MAX_SYCL_BUFFERS \<and> ptr (pool k) = 0"
proof (induction n arbitrary: i)
  case 0
  then show ?case by (simp add: first_empty_slot_end)
next
  case (Suc n)
  then have lt: "i < MAX_SYCL_BUFFERS" and nx: "(i + 1) + n = MAX_SYCL_BUFFERS" by simp_all
  show ?case
  proof (cases "ptr (pool i) = 0")
    case True
    with Suc.prems(2) lt show ?thesis by (simp add: first_empty_slot_unfold)
  next
    case False
    with Suc.prems(2) lt have "first_empty_slot pool (i + 1) = Some k"
      by (simp add: first_empty_slot_unfold)
    then show ?thesis by (rule Suc.IH[OF nx])
  qed
qed

lemma first_empty_slot_Some:
  "first_empty_slot pool 0 = Some k \<Longrightarrow> k < MAX_SYCL_BUFFERS \<and> ptr (pool k) = 0"
  by (rule first_empty_slot_Some_aux[of 0 MAX_SYCL_BUFFERS]) simp_all

lemma pool_malloc_result_size:
  assumes "ggml_sycl_pool_malloc_leg malloc_device device_index sz st = Inr (p, actual_size, st1)"
    and "sz < 2 ^ 47"
  shows "sz \<le> actual_size"
proof (cases "\<exists>j<MAX_SYCL_BUFFERS. fits (g_sycl_buffer_pool st device_index) sz j
                \<and> surplus (g_sycl_buffer_pool st device_index) sz j < 2 ^ 36")
  case True
  then obtain j where "j < MAX_SYCL_BUFFERS" "fits (g_sycl_buffer_pool st device_index) sz j"
      "surplus (g_sycl_buffer_pool st device_index) sz j < 2 ^ 36" by blast
  from pool_malloc_reuse[OF this, of malloc_device] assms(1) show ?thesis
    by (auto simp: take_slot_def Let_def fits_def)
next
  case False
  then have "\<forall>j<MAX_SYCL_BUFFERS. fits (g_sycl_buffer_pool st device_index) sz j \<longrightarrow>
              2 ^ 36 \<le> surplus (g_sycl_buffer_pool st device_index) sz j"
    by (auto simp: not_less)
  from pool_malloc_fresh[OF this, of malloc_device] assms(1) look_ahead_size_ge(1)[OF assms(2)]
  show ?thesis
    by (auto simp: fresh_result_def split: option.splits)
qed

lemma pool_free_then_malloc:
  assumes slot: "first_empty_slot (g_sycl_buffer_pool st1 device_index) 0 \<noteq> None"
    and p: "p \<noteq> 0" and le: "sz' \<le> actual_size" and thr: "actual_size - sz' < 2 ^ 36"
    and others: "\<forall>j<MAX_SYCL_BUFFERS. fits (g_sycl_buffer_pool st1 device_index) sz' j \<longrightarrow>
                   actual_size < size_b (g_sycl_buffer_pool st1 device_index j)"
  shows "\<exists>st2 st3. ggml_sycl_pool_free_leg free_throws device_index p actual_size st1 = Inr st2
           \<and> ggml_sycl_pool_malloc_leg malloc_device device_index sz' st2 = Inr (p, actual_size, st3)
           \<and> device_calls st3 = device_calls st2"
proof -
  define pool1 where "pool1 = g_sycl_buffer_pool st1 device_index"
  from slot obtain i where i: "first_empty_slot pool1 0 = Some i" by (auto simp: pool1_def)
  then have ilt: "i < MAX_SYCL_BUFFERS" and iempty: "ptr (pool1 i) = 0"
    using first_empty_slot_Some by blast+
  define pool2 where "pool2 = pool1(i := \<lparr> ptr = p, size_b = actual_size \<rparr>)"
  define st2 where "st2 = st1\<lparr> g_sycl_buffer_pool := (g_sycl_buffer_pool st1)(device_index := pool2) \<rparr>"
  have free: "ggml_sycl_pool_free_leg free_throws device_index p actual_size st1 = Inr st2"
    using i by (simp add: ggml_sycl_pool_free_leg_def pool1_def[symmetric] st2_def pool2_def)
  have g2: "g_sycl_buffer_pool st2 device_index = pool2" by (simp add: st2_def)
  have fi: "fits pool2 sz' i" "surplus pool2 sz' i = actual_size - sz'"
    using p le by (simp_all add: pool2_def fits_def surplus_def)
  with thr have "surplus pool2 sz' i < 2 ^ 36" by simp
  from pool_malloc_reuse[of i st2 device_index sz' malloc_device, unfolded g2, OF ilt fi(1) this]
  obtain k where k: "k < MAX_SYCL_BUFFERS" "fits pool2 sz' k"
      "\<forall>j<MAX_SYCL_BUFFERS. fits pool2 sz' j \<longrightarrow> surplus pool2 sz' k \<le> surplus pool2 sz' j"
      "ggml_sycl_pool_malloc_leg malloc_device device_index sz' st2 = Inr (take_slot device_index k st2)"
    by blast
  have "k = i"
  proof (rule ccontr)
    assume ne: "k \<noteq> i"
    then have same: "pool2 k = pool1 k" by (simp add: pool2_def)
    with k(2) have f1: "fits pool1 sz' k" by (simp add: fits_def)
    with others k(1) have big: "actual_size < size_b (pool1 k)" by (simp add: pool1_def)
    from k(3) ilt fi have "surplus pool2 sz' k \<le> actual_size - sz'" by fastforce
    with same have "size_b (pool1 k) - sz' \<le> actual_size - sz'" by (simp add: surplus_def)
    with big le show False by linarith
  qed
  with k(4) have "ggml_sycl_pool_malloc_leg malloc_device device_index sz' st2 =
      Inr (p, actual_size, snd (snd (take_slot device_index i st2)))"
    by (simp add: take_slot_def Let_def g2 pool2_def)
  moreover have "device_calls (snd (snd (take_slot device_index i st2))) = device_calls st2"
    by (simp add: take_slot_def Let_def)
  ultimately show ?thesis using free by blast
qed

text \<open>
  Claim C6 (as amended). A buffer of size \<open>sz\<close> is allocated and released to the pool, and the release is
  pooled. A following request on the same device for a size \<open>sz' \<le> sz\<close> returns the same
  pointer, and makes no call to the device, provided that the surplus of the released buffer
  over the new request is below \<open>2 ^ 36\<close> and every other resident buffer that fits the new
  request is strictly larger than the released one.
\<close>

theorem pool_reuse_after_release:
  assumes "sz' \<le> sz" and "sz < 2 ^ 47"
    and "ggml_sycl_pool_malloc_leg md1 device_index sz st = Inr (p, actual_size, st1)"
    and "p \<noteq> 0"
    and "first_empty_slot (g_sycl_buffer_pool st1 device_index) 0 \<noteq> None"
    and "actual_size - sz' < 2 ^ 36"
    and "\<forall>j<MAX_SYCL_BUFFERS. fits (g_sycl_buffer_pool st1 device_index) sz' j \<longrightarrow>
           actual_size < size_b (g_sycl_buffer_pool st1 device_index j)"
  shows "\<exists>st2 st3. ggml_sycl_pool_free_leg free_throws device_index p actual_size st1 = Inr st2
           \<and> ggml_sycl_pool_malloc_leg md2 device_index sz' st2 = Inr (p, actual_size, st3)
           \<and> device_calls st3 = device_calls st2
           \<and> alloc_release_alloc md1 free_throws md2 device_index sz sz' st =
               Inr (p, p, malloc_device_count st2, malloc_device_count st2)"
proof -
  have "sz \<le> actual_size" using assms(3,2) by (rule pool_malloc_result_size)
  with assms(1) have le: "sz' \<le> actual_size" by simp
  from pool_free_then_malloc[OF assms(5) assms(4) le assms(6) assms(7), of free_throws md2]
  obtain st2 st3 where r: "ggml_sycl_pool_free_leg free_throws device_index p actual_size st1 = Inr st2"
      "ggml_sycl_pool_malloc_leg md2 device_index sz' st2 = Inr (p, actual_size, st3)"
      "device_calls st3 = device_calls st2"
    by blast
  then have "alloc_release_alloc md1 free_throws md2 device_index sz sz' st =
               Inr (p, p, malloc_device_count st2, malloc_device_count st2)"
    using assms(3,4) by (simp add: alloc_release_alloc_def malloc_device_count_def)
  with r show ?thesis by blast
qed



lemma pool_free_pooled_calls:
  assumes "first_empty_slot (g_sycl_buffer_pool st1 device_index) 0 \<noteq> None"
    and "ggml_sycl_pool_free_leg free_throws device_index p sz st1 = Inr st2"
  shows "device_calls st2 = device_calls st1"
  using assms by (auto simp: ggml_sycl_pool_free_leg_def split: option.splits)

theorem pool_reuse_after_release_witness:
  "(2000::nat) \<le> 2048
   \<and> alloc_release_alloc (Some 12288) False None 0 2048 2000 two_buffers = Inr (12288, 12288, 3, 3)"
proof -
  define st1 where "st1 = two_buffers\<lparr> g_sycl_pool_size := (g_sycl_pool_size two_buffers)(0 := 3928),
                       device_calls := device_calls two_buffers @ [Malloc_device 2304 12288] \<rparr>"
  have p1: "g_sycl_buffer_pool st1 0 =
     (\<lambda>i. if i = 0 then \<lparr> ptr = 4096, size_b = 1024 \<rparr> else if i = 3 then \<lparr> ptr = 8192, size_b = 600 \<rparr> else empty_buffer)"
    by (simp add: st1_def two_buffers_pool)
  have m: "ggml_sycl_pool_malloc_leg (Some 12288) 0 2048 two_buffers = Inr (12288, 2304, st1)"
    by (simp add: ggml_sycl_pool_malloc_leg_def pool_scan_unfold pool_scan_end
        MAX_SYCL_BUFFERS_def fits_def surplus_def two_buffers_def pool_state_of_def empty_buffer_def
        look_ahead_size_exact st1_def)
  have slot: "first_empty_slot (g_sycl_buffer_pool st1 0) 0 \<noteq> None"
    by (simp add: p1 first_empty_slot_unfold MAX_SYCL_BUFFERS_def empty_buffer_def)
  have others: "\<forall>j<MAX_SYCL_BUFFERS. fits (g_sycl_buffer_pool st1 0) 2000 j \<longrightarrow>
           2304 < size_b (g_sycl_buffer_pool st1 0 j)"
    by (simp add: p1 fits_def empty_buffer_def)
  from pool_reuse_after_release[of 2000 2048 "Some 12288" 0 two_buffers 12288 2304 st1 False None, OF _ _ m _ slot _ others]
  obtain st2 where r: "ggml_sycl_pool_free_leg False 0 12288 2304 st1 = Inr st2"
     "alloc_release_alloc (Some 12288) False None 0 2048 2000 two_buffers =
               Inr (12288, 12288, malloc_device_count st2, malloc_device_count st2)"
    by auto
  from pool_free_pooled_calls[OF slot r(1)] have "malloc_device_count st2 = 3"
    by (simp add: malloc_device_count_def st1_def two_buffers_def pool_state_of_def)
  with r(2) show ?thesis by simp
qed

text \<open>
  Claim C6 as first stated does not hold: with a buffer of 512 bytes resident in slot 0, a buffer of
  1024 bytes is allocated (pointer 8192, fresh from the device) and released to slot 1; the
  following request for 512 bytes is served by the exact fit of slot 0 (pointer 4096), not by the
  buffer just released.
\<close>

theorem pool_reuse_other_buffer_wins:
  "alloc_release_alloc (Some 8192) False (Some 12288) 0 1024 512 one_small = Inr (8192, 4096, 2, 2)"
  by (simp add: alloc_release_alloc_def ggml_sycl_pool_malloc_leg_def ggml_sycl_pool_free_leg_def
      pool_scan_unfold pool_scan_end first_empty_slot_unfold first_empty_slot_end
      MAX_SYCL_BUFFERS_def fits_def surplus_def one_small_def pool_state_of_def empty_buffer_def
      look_ahead_size_exact take_slot_def Let_def malloc_device_count_def)

section \<open>The guard of the Q8_1 quantization\<close>

lemma quantize_q8_1_loop_step:
  "0 < msk \<Longrightarrow> quantize_q8_1_loop msk (a, s) =
     quantize_q8_1_loop (msk div 2) (xor_step max msk a, xor_step fadd msk s)"
  by (subst quantize_q8_1_loop.simps) (simp add: xor_step_def drop_bit_eq_div)

lemma quantize_q8_1_loop_0: "quantize_q8_1_loop 0 (a, s) = (a, s)"
  by (subst quantize_q8_1_loop.simps) simp

lemma quantize_q8_1_loop_fst:
  "fst (quantize_q8_1_loop msk (a, s)) = warp_reduce_max_loop msk a"
proof (induction msk "(a, s)" arbitrary: a s rule: quantize_q8_1_loop.induct)
  case (1 msk amax sm)
  show ?case
  proof (cases "msk > 0")
    case True
    then show ?thesis
      using 1 by (subst quantize_q8_1_loop.simps, subst warp_reduce_max_loop.simps) simp
  next
    case False
    then show ?thesis
      by (subst quantize_q8_1_loop.simps, subst warp_reduce_max_loop.simps) simp
  qed
qed

text \<open>
  The additions of the loop are exact when the values are multiples of a power of two that are
  small enough for every partial sum to be a \<^verbatim>\<open>float\<close>.
\<close>

lemma fadd_grid:
  assumes "x = Some (of_int m * 2 powi e)" "y = Some (of_int n * 2 powi e)"
    and "\<bar>m\<bar> \<le> B" "\<bar>n\<bar> \<le> B" "2 * B < 2 ^ 24" "- 149 \<le> e" "e \<le> 104"
  shows "fadd x y = Some (of_int (m + n) * 2 powi e)"
proof -
  have "\<bar>m + n\<bar> < 2 ^ 24" using assms(3,4,5) by linarith
  from to_float_exact[OF this assms(6,7)] show ?thesis
    by (simp add: fadd_def assms(1,2) algebra_simps)
qed

lemma quantize_q8_1_loop_sum_blocks:
  fixes B :: int
  assumes "k \<le> 5" "- 149 \<le> e" "e \<le> 104"
  shows "B * 2 ^ k < 2 ^ 24 \<Longrightarrow>
         \<forall>j\<in>lane_block k l. \<exists>m. s j = Some (of_int m * 2 powi e) \<and> \<bar>m\<bar> \<le> B \<Longrightarrow>
         snd (quantize_q8_1_loop (2 ^ k div 2) (a, s)) l = Some (\<Sum>j\<in>lane_block k l. the (s j))"
  using assms(1)
proof (induction k arbitrary: a s B)
  case 0
  show ?case by (simp add: lane_block_0 quantize_q8_1_loop_0) (use 0 in \<open>auto simp: lane_block_0\<close>)
next
  case (Suc k)
  define s' where "s' = xor_step fadd (2 ^ k) s"
  have k5: "k < 5" using Suc.prems(3) by simp
  have B2: "2 * B < 2 ^ 24"
  proof -
    have "2 * B \<le> B * 2 ^ Suc k" if "0 \<le> B"
    proof -
      have "B * 1 \<le> B * 2 ^ k" using that by (intro mult_left_mono) simp_all
      then show ?thesis by simp
    qed
    with Suc.prems(1) show ?thesis by (cases "0 \<le> B") auto
  qed
  have step: "s' j = Some (the (s j) + the (s (j XOR 2 ^ k)))
              \<and> (\<exists>m. s' j = Some (of_int m * 2 powi e) \<and> \<bar>m\<bar> \<le> 2 * B)"
    if j: "j \<in> lane_block k l" for j
  proof -
    have "j \<in> lane_block (Suc k) l" "j XOR 2 ^ k \<in> lane_block (Suc k) l"
      using j by (simp_all add: lane_block_Suc)
    with Suc.prems(2) obtain m n where
      m: "s j = Some (of_int m * 2 powi e)" "\<bar>m\<bar> \<le> B" and
      n: "s (j XOR 2 ^ k) = Some (of_int n * 2 powi e)" "\<bar>n\<bar> \<le> B"
      by blast
    have "s' j = fadd (s j) (s (j XOR 2 ^ k))"
      by (simp add: s'_def xor_step_def permute_xor_pow[OF k5])
    also have "\<dots> = Some (of_int (m + n) * 2 powi e)"
      by (rule fadd_grid[OF m(1) n(1) m(2) n(2) B2 assms(2,3)])
    finally have e: "s' j = Some (of_int (m + n) * 2 powi e)" .
    have b: "\<bar>m + n\<bar> \<le> 2 * B" using m(2) n(2) by linarith
    have "s' j = Some (the (s j) + the (s (j XOR 2 ^ k)))"
      by (simp add: e m(1) n(1) algebra_simps)
    moreover have "\<exists>m. s' j = Some (of_int m * 2 powi e) \<and> \<bar>m\<bar> \<le> 2 * B"
      using e b by blast
    ultimately show ?thesis ..
  qed
  have "quantize_q8_1_loop (2 ^ Suc k div 2) (a, s)
      = quantize_q8_1_loop (2 ^ k div 2) (xor_step max (2 ^ k) a, s')"
    using quantize_q8_1_loop_step[of "2 ^ k" a s] by (simp add: s'_def)
  moreover have "snd (quantize_q8_1_loop (2 ^ k div 2) (xor_step max (2 ^ k) a, s')) l
      = Some (\<Sum>j\<in>lane_block k l. the (s' j))"
  proof (rule Suc.IH)
    show "2 * B * 2 ^ k < 2 ^ 24" using Suc.prems(1) by (simp add: mult.assoc mult.left_commute)
    show "\<forall>j\<in>lane_block k l. \<exists>m. s' j = Some (of_int m * 2 powi e) \<and> \<bar>m\<bar> \<le> 2 * B"
      using step by blast
    show "k \<le> 5" using k5 by simp
  qed
  moreover have "(\<Sum>j\<in>lane_block k l. the (s' j)) = (\<Sum>j\<in>lane_block k l. the (s j) + the (s (j XOR 2 ^ k)))"
    by (rule sum.cong) (simp_all add: step)
  ultimately show ?case by (simp only: sum_lane_block_Suc)
qed

lemma quantize_q8_1_loop_16:
  fixes B :: int
  assumes "l < 32" "- 149 \<le> e" "e \<le> 104" "B * 32 < 2 ^ 24"
    and "\<forall>j<32. \<exists>m. x j = of_int m * 2 powi e \<and> \<bar>m\<bar> \<le> B"
  shows "fst (quantize_q8_1_loop 16 (\<lambda>l. \<bar>x l\<bar>, \<lambda>l. Some (x l))) l = Max ((\<lambda>l. \<bar>x l\<bar>) ` {..<32})"
    and "snd (quantize_q8_1_loop 16 (\<lambda>l. \<bar>x l\<bar>, \<lambda>l. Some (x l))) l = Some (\<Sum>j<32. x j)"
proof -
  show "fst (quantize_q8_1_loop 16 (\<lambda>l. \<bar>x l\<bar>, \<lambda>l. Some (x l))) l = Max ((\<lambda>l. \<bar>x l\<bar>) ` {..<32})"
    using warp_reduce_max_lanes[OF assms(1), of "\<lambda>l. \<bar>x l\<bar>"]
    by (simp add: quantize_q8_1_loop_fst warp_reduce_max_def)
  have b: "lane_block 5 l = {..<32}" using lane_block_full[of l 5] assms(1) by simp
  have "snd (quantize_q8_1_loop (2 ^ 5 div 2) (\<lambda>l. \<bar>x l\<bar>, \<lambda>l. Some (x l))) l
          = Some (\<Sum>j\<in>lane_block 5 l. the (Some (x j)))"
    using assms(4,5) by (intro quantize_q8_1_loop_sum_blocks[OF _ assms(2,3), of 5 B]) (simp_all add: b)
  then show "snd (quantize_q8_1_loop 16 (\<lambda>l. \<bar>x l\<bar>, \<lambda>l. Some (x l))) l = Some (\<Sum>j<32. x j)"
    by (simp add: b)
qed

text \<open>
  What a work-item stores, for a sub-group whose values are multiples of a power of two and small
  enough for the sum to be exact.
\<close>

lemma quantize_q8_1_eval:
  fixes B :: int
  assumes "lane < 32" "ix0 + lane < kx_padded"
    and "- 149 \<le> e" "e \<le> 104" "B * 32 < 2 ^ 24"
    and "\<forall>j<32. \<exists>m. quantize_q8_1_xi x kx iy (ix0 + j) = of_int m * 2 powi e \<and> \<bar>m\<bar> \<le> B"
  shows "quantize_q8_1 x kx kx_padded iy ix0 lane =
     (let xi = (\<lambda>l. quantize_q8_1_xi x kx iy (ix0 + l));
          amax = Max ((\<lambda>l. \<bar>xi l\<bar>) ` {..<32});
          d = float32 (amax / 127);
          iqs = (iy * kx_padded + (ix0 + lane)) mod QK8_1
      in Some \<lparr> store_ib = (iy * kx_padded + (ix0 + lane)) div QK8_1, store_iqs = iqs,
                store_q = (if amax = 0 then Some 0
                           else Option.bind (fdiv (xi lane) d) (\<lambda>v. float_to_int8 (sycl_round v))),
                store_ds = (if iqs > 0 then None else Some (to_half d, to_half (\<Sum>l<32. xi l))) \<rparr>)"
  using assms(1,2)
  by (simp add: quantize_q8_1_def Let_def case_prod_beta
      quantize_q8_1_loop_16[OF assms(1,3,4,5,6)])

text \<open>
  A block whose elements are all zero: every code is 0, no division is evaluated, and the stored
  scale and sum are 0.
\<close>

lemma quantize_q8_1_zero_block:
  assumes "lane < 32" "ix0 + lane < kx_padded"
    and "\<forall>j<32. quantize_q8_1_xi x kx iy (ix0 + j) = 0"
  shows "quantize_q8_1 x kx kx_padded iy ix0 lane =
     Some \<lparr> store_ib = (iy * kx_padded + (ix0 + lane)) div QK8_1,
            store_iqs = (iy * kx_padded + (ix0 + lane)) mod QK8_1,
            store_q = Some 0,
            store_ds = (if (iy * kx_padded + (ix0 + lane)) mod QK8_1 > 0 then None
                        else Some (Some 0, Some 0)) \<rparr>"
proof -
  have g: "\<forall>j<32. \<exists>m. quantize_q8_1_xi x kx iy (ix0 + j) = of_int m * 2 powi 0 \<and> \<bar>m\<bar> \<le> (0::int)"
    using assms(3) by simp
  have m: "Max ((\<lambda>l. \<bar>quantize_q8_1_xi x kx iy (ix0 + l)\<bar>) ` {..<(32::nat)}) = 0"
  proof -
    have "(\<lambda>l. \<bar>quantize_q8_1_xi x kx iy (ix0 + l)\<bar>) ` {..<(32::nat)} = {0}"
      using assms(3) by (auto intro: image_eqI[where x = 0])
    then show ?thesis by simp
  qed
  have s: "(\<Sum>l<32. quantize_q8_1_xi x kx iy (ix0 + l)) = 0"
    using assms(3) by simp
  show ?thesis
    unfolding quantize_q8_1_eval[OF assms(1,2) _ _ _ g, simplified] Let_def m s
    by simp
qed

text \<open>The scale of the example row underflows to 0, although the greatest magnitude is not 0.\<close>

lemma FLT_TRUE_MIN_pos: "0 < FLT_TRUE_MIN"
  by (simp add: FLT_TRUE_MIN_def)

lemma tiny_row_amax:
  "Max ((\<lambda>l. \<bar>quantize_q8_1_xi tiny_row 32 0 (0 + l)\<bar>) ` {..<32}) = FLT_TRUE_MIN"
  using FLT_TRUE_MIN_pos
  by (simp add: quantize_q8_1_xi_def tiny_row_def lessThan_nat_numeral lessThan_Suc)

lemma tiny_row_sum:
  "(\<Sum>l<32. quantize_q8_1_xi tiny_row 32 0 (0 + l)) = FLT_TRUE_MIN"
  by (simp add: quantize_q8_1_xi_def tiny_row_def lessThan_nat_numeral lessThan_Suc)

lemma tiny_scale: "float32 (FLT_TRUE_MIN / 127) = 0"
  by (rule float32_underflow) (simp add: FLT_TRUE_MIN_def power_int_def power_one_over)

text \<open>
  More generally, the scale is rounded to 0 for every \<open>amax\<close> below \<open>127 * 2 ^ -150\<close>: for the 63
  least positive values of type \<^verbatim>\<open>float\<close>.
\<close>

lemma scale_underflow:
  assumes "\<bar>amax\<bar> < 127 * 2 powi (- 150)"
  shows "float32 (amax / 127) = 0"
proof (rule float32_underflow)
  have "\<bar>amax / 127\<bar> = \<bar>amax\<bar> / 127" by simp
  also have "\<dots> < 127 * 2 powi (- 150) / 127"
    using assms by (intro divide_strict_right_mono) simp_all
  finally show "\<bar>amax / 127\<bar> < 2 powi (- 150)" by simp
qed

lemma tiny_half: "to_half FLT_TRUE_MIN = Some 0"
proof -
  have "float16 FLT_TRUE_MIN = 0"
    by (rule float16_underflow) (simp add: FLT_TRUE_MIN_def power_int_def power_one_over)
  then show ?thesis by (simp add: to_half_def)
qed

lemma tiny_row_store:
  assumes "l < 32"
  shows "quantize_q8_1 tiny_row 32 512 0 0 l =
     Some \<lparr> store_ib = 0, store_iqs = l, store_q = None,
            store_ds = (if l > 0 then None else Some (Some 0, Some 0)) \<rparr>"
proof -
  have p: "0 + l < (512::nat)" using assms by simp
  have e: "- 149 \<le> (- 149 :: int)" "(- 149 :: int) \<le> 104" "(1::int) * 32 < 2 ^ 24" by simp_all
  have g: "\<forall>j<32. \<exists>m. quantize_q8_1_xi tiny_row 32 0 (0 + j) = of_int m * 2 powi (- 149) \<and> \<bar>m\<bar> \<le> (1::int)"
  proof (intro allI impI)
    fix j :: nat assume "j < 32"
    show "\<exists>m. quantize_q8_1_xi tiny_row 32 0 (0 + j) = of_int m * 2 powi (- 149) \<and> \<bar>m\<bar> \<le> (1::int)"
      by (rule exI[of _ "if j = 0 then 1 else 0"])
         (simp add: quantize_q8_1_xi_def tiny_row_def FLT_TRUE_MIN_def power_int_def power_one_over)
  qed
  note ev = quantize_q8_1_eval[OF assms p e g, unfolded Let_def tiny_row_amax tiny_row_sum tiny_scale tiny_half]
  show ?thesis
    unfolding ev using assms FLT_TRUE_MIN_pos by (simp add: QK8_1_def fdiv_def)
qed

text \<open>
  Claim C10. The division by the scale is guarded by the test of \<open>amax\<close>, not of the scale: for the
  row whose first element is \<open>2 ^ -149\<close> and whose other elements are 0, \<open>amax\<close> is not zero, but the
  scale \<^verbatim>\<open>d = amax / 127\<close> is rounded to 0. Every work-item of the block evaluates \<^verbatim>\<open>xi / d\<close> with
  the scale 0: the quotient is an infinity for the first work-item and a NaN for the others, and
  the code that its conversion to \<^verbatim>\<open>int8_t\<close> stores is not defined. The stored scale is 0.
\<close>

theorem quantize_q8_1_divides_by_zero_scale:
  "Max ((\<lambda>l. \<bar>quantize_q8_1_xi tiny_row 32 0 (0 + l)\<bar>) ` {..<32}) = FLT_TRUE_MIN
   \<and> 0 < FLT_TRUE_MIN
   \<and> float32 (FLT_TRUE_MIN / 127) = 0
   \<and> fdiv (quantize_q8_1_xi tiny_row 32 0 0) (float32 (FLT_TRUE_MIN / 127)) = None
   \<and> fdiv (quantize_q8_1_xi tiny_row 32 0 1) (float32 (FLT_TRUE_MIN / 127)) = None
   \<and> quantize_q8_1 tiny_row 32 512 0 0 0 =
       Some \<lparr> store_ib = 0, store_iqs = 0, store_q = None, store_ds = Some (Some 0, Some 0) \<rparr>
   \<and> quantize_q8_1 tiny_row 32 512 0 0 1 =
       Some \<lparr> store_ib = 0, store_iqs = 1, store_q = None, store_ds = None \<rparr>"
  unfolding tiny_row_amax tiny_scale
  by (simp add: FLT_TRUE_MIN_pos fdiv_def tiny_row_store)

section \<open>The dispatch for quantized weights\<close>

lemma quantized_not_dense:
  "ggml_is_quantized t \<Longrightarrow> t \<noteq> GGML_TYPE_F16 \<and> t \<noteq> GGML_TYPE_F32"
  by (auto simp: ggml_is_quantized_def)

text \<open>
  Claim C2 (as amended). For a quantized weight operand \<^verbatim>\<open>src0\<close> the dispatcher always ends in
  \<^verbatim>\<open>ggml_sycl_op_mul_mat\<close>. When \<^verbatim>\<open>src1\<close> has exactly one column and the row length of \<^verbatim>\<open>src0\<close> is a
  multiple of \<^verbatim>\<open>GGML_SYCL_DMMV_X\<close>, it passes \<^verbatim>\<open>ggml_sycl_op_mul_mat_vec_q\<close> when the build does
  not force DMMV, the minimum compute capability is at least \<^verbatim>\<open>VER_4VEC\<close> and \<^verbatim>\<open>src1\<close> has exactly
  one row, and \<^verbatim>\<open>ggml_sycl_op_dequantize_mul_mat_vec\<close> otherwise. In the other case it passes
  \<^verbatim>\<open>ggml_sycl_op_mul_mat_q\<close> when the minimum compute capability is at least \<^verbatim>\<open>VER_4VEC\<close>, unless
  an XMX build meets a capability of at least \<^verbatim>\<open>VER_GEN9\<close> and more than \<^verbatim>\<open>XMX_MAX_BATCH_SIZE\<close>
  columns, and the dense \<^verbatim>\<open>ggml_sycl_op_mul_mat_sycl\<close> otherwise.
\<close>

theorem mul_mat_dispatch_quantized:
  assumes "ggml_is_quantized (ttype src0)"
  shows "ggml_sycl_mul_mat cfg dt src0 src1 dst =
     Inr (if ne src1 1 = 1 \<and> c_rem (ne src0 0) (GGML_SYCL_DMMV_X cfg) = 0
          then (if \<not> GGML_SYCL_FORCE_DMMV cfg \<and> min_cc_loop dt 0 INT_MAX \<ge> VER_4VEC cfg
                   \<and> ggml_nrows src1 = 1
                then ggml_sycl_op_mul_mat ggml_sycl_op_mul_mat_vec_q True
                else ggml_sycl_op_mul_mat ggml_sycl_op_dequantize_mul_mat_vec False)
          else (if min_cc_loop dt 0 INT_MAX \<ge> VER_4VEC cfg
                   \<and> \<not> (SYCL_USE_XMX cfg \<and> min_cc_loop dt 0 INT_MAX \<ge> VER_GEN9 cfg
                          \<and> ne src1 1 > XMX_MAX_BATCH_SIZE cfg)
                then ggml_sycl_op_mul_mat ggml_sycl_op_mul_mat_q True
                else ggml_sycl_op_mul_mat ggml_sycl_op_mul_mat_sycl False))"
  using assms quantized_not_dense[OF assms]
  by (simp add: ggml_sycl_mul_mat_def Let_def)

lemma min_cc_one_device: "min_cc_loop one_device 0 INT_MAX = 1000"
  by (simp add: min_cc_loop.simps one_device_def INT_MAX_def)

theorem mul_mat_dispatch_quantized_witness:
  "ggml_is_quantized GGML_TYPE_Q4_0
   \<and> ggml_sycl_mul_mat example_config one_device
        (example_tensor GGML_TYPE_Q4_0 4096 4096 1) (example_tensor GGML_TYPE_F32 4096 1 1)
        (example_tensor GGML_TYPE_F32 4096 1 1)
      = Inr (ggml_sycl_op_mul_mat ggml_sycl_op_mul_mat_vec_q True)
   \<and> ggml_sycl_mul_mat example_config one_device
        (example_tensor GGML_TYPE_Q4_0 4096 4096 1) (example_tensor GGML_TYPE_F32 4096 8 1)
        (example_tensor GGML_TYPE_F32 4096 8 1)
      = Inr (ggml_sycl_op_mul_mat ggml_sycl_op_mul_mat_q True)"
proof -
  have q: "ggml_is_quantized (ttype (example_tensor GGML_TYPE_Q4_0 4096 4096 1))"
    by (simp add: example_tensor_def ggml_is_quantized_def)
  have r: "c_rem 4096 32 = 0" by (simp add: c_rem_def c_div_def)
  show ?thesis
    using mul_mat_dispatch_quantized[OF q, of example_config one_device "example_tensor GGML_TYPE_F32 4096 1 1" "example_tensor GGML_TYPE_F32 4096 1 1"]
      mul_mat_dispatch_quantized[OF q, of example_config one_device "example_tensor GGML_TYPE_F32 4096 8 1" "example_tensor GGML_TYPE_F32 4096 8 1"]
    by (simp add: min_cc_one_device example_config_def example_tensor_def ggml_nrows_def r ggml_is_quantized_def)
qed

text \<open>
  Claim C2 as first stated does not hold: with fast integer SIMD available and one column, a
  query of more than one row is sent to \<^verbatim>\<open>ggml_sycl_op_dequantize_mul_mat_vec\<close>, and a query of
  exactly one row to \<^verbatim>\<open>ggml_sycl_op_mul_mat_vec_q\<close>.
\<close>

theorem mul_mat_vec_q_needs_single_row:
  "ggml_is_quantized (ttype (example_tensor GGML_TYPE_Q4_0 4096 4096 1))
   \<and> ne (example_tensor GGML_TYPE_F32 4096 1 2) 1 = 1
   \<and> min_cc_loop one_device 0 INT_MAX \<ge> VER_4VEC example_config
   \<and> ggml_nrows (example_tensor GGML_TYPE_F32 4096 1 2) > 1
   \<and> ggml_sycl_mul_mat example_config one_device
        (example_tensor GGML_TYPE_Q4_0 4096 4096 1) (example_tensor GGML_TYPE_F32 4096 1 2)
        (example_tensor GGML_TYPE_F32 4096 1 2)
      = Inr (ggml_sycl_op_mul_mat ggml_sycl_op_dequantize_mul_mat_vec False)
   \<and> \<not> ggml_nrows (example_tensor GGML_TYPE_F32 4096 1 1) > 1
   \<and> ggml_sycl_mul_mat example_config one_device
        (example_tensor GGML_TYPE_Q4_0 4096 4096 1) (example_tensor GGML_TYPE_F32 4096 1 1)
        (example_tensor GGML_TYPE_F32 4096 1 1)
      = Inr (ggml_sycl_op_mul_mat ggml_sycl_op_mul_mat_vec_q True)"
  by (simp add: ggml_sycl_mul_mat_def Let_def min_cc_one_device example_config_def example_tensor_def
      ggml_nrows_def c_rem_def c_div_def ggml_is_quantized_def)

section \<open>The row ranges of the devices partition the rows\<close>

























lemma float32_numerals:
  "float32 1000 = 1000" "float32 250 = 250" "float32 500 = 500" "float32 1280 = 1280"
  "float32 16777220 = 16777220"
proof -
  show "float32 1000 = 1000" using float32_int[of 1000] by simp
  show "float32 250 = 250" using float32_int[of 250] by simp
  show "float32 500 = 500" using float32_int[of 500] by simp
  show "float32 1280 = 1280" using float32_int[of 1280] by simp
  show "float32 16777220 = 16777220" using float32_exact[of 4194305 2] by simp
qed




text \<open>
  The product is rounded as the \<^verbatim>\<open>float\<close> arithmetic rounds it: for 1280 rows and the fraction
  \<^verbatim>\<open>0.7f\<close>, which is \<open>11744051 / 2 ^ 24\<close>, the product rounds to 896, a multiple of 128.
\<close>

lemma float_product_1280: "float_product 1280 (11744051 / 16777216) = 896"
proof -
  have "float32 (1280 * (11744051 / 16777216)) =
          of_int (round_nearest_even (1280 * (11744051 / 16777216) / 2 powi (max (9 - 23) (- 149))))
            * 2 powi (max (9 - 23) (- 149))"
    by (rule float32_eval) (simp_all add: power_int_def)
  also have "1280 * (11744051 / 16777216) / 2 powi (max (9 - 23) (- 149)) = (58720255 / 4 :: real)"
    by (simp add: power_int_def power_one_over)
  also have "round_nearest_even (58720255 / 4) = 14680063 + 1"
    by (rule round_nearest_even_up) simp_all
  finally show ?thesis by (simp add: float_product_def float32_numerals power_int_def power_one_over)
qed

lemma split_boundary_1280: "split_boundary 1280 128 (11744051 / 16777216) = 896"
  by (simp add: split_boundary_def float_product_1280 float_to_int64_def c_rem_def c_div_def)






section \<open>The Q4_0 by Q8_1 dot product\<close>

lemma byte_of_get_int_from_uint8:
  "byte_of (get_int_from_uint8 x8 i) 0 = x8 ! (4 * i)"
  "byte_of (get_int_from_uint8 x8 i) 1 = x8 ! (4 * i + 1)"
  "byte_of (get_int_from_uint8 x8 i) 2 = x8 ! (4 * i + 2)"
  "byte_of (get_int_from_uint8 x8 i) 3 = x8 ! (4 * i + 3)"
  by (rule bit_word_eqI; auto simp: byte_of_def get_int_from_uint8_def Let_def bit_simps dest: bit_imp_le_length)+

lemma byte_of_get_int_from_int8_aligned:
  "byte_of (get_int_from_int8_aligned x8 i) 0 = x8 ! (4 * i)"
  "byte_of (get_int_from_int8_aligned x8 i) 1 = x8 ! (4 * i + 1)"
  "byte_of (get_int_from_int8_aligned x8 i) 2 = x8 ! (4 * i + 2)"
  "byte_of (get_int_from_int8_aligned x8 i) 3 = x8 ! (4 * i + 3)"
  by (rule bit_word_eqI; auto simp: byte_of_def get_int_from_int8_aligned_def Let_def bit_simps dest: bit_imp_le_length)+


lemma byte_of_low_aux:
  assumes "k = 0 \<or> k = 1 \<or> k = 2 \<or> k = (3::nat)"
  shows "byte_of (v AND 0x0F0F0F0F) k = byte_of v k AND 0xF"
proof (rule bit_word_eqI)
  fix n assume "n < LENGTH(8)"
  then have "n < 8" by simp
  then consider "n = 0" | "n = 1" | "n = 2" | "n = 3" | "n = 4" | "n = 5" | "n = 6" | "n = 7" by arith
  then show "bit (byte_of (v AND 0x0F0F0F0F) k) n = bit (byte_of v k AND 0xF) n"
    using assms by cases (auto simp: byte_of_def bit_simps)
qed

lemma byte_of_high_aux:
  assumes "k = 0 \<or> k = 1 \<or> k = 2 \<or> k = (3::nat)"
  shows "byte_of (signed_drop_bit 4 v AND 0x0F0F0F0F) k = drop_bit 4 (byte_of v k)"
proof (rule bit_word_eqI)
  fix n assume "n < LENGTH(8)"
  then have "n < 8" by simp
  then consider "n = 0" | "n = 1" | "n = 2" | "n = 3" | "n = 4" | "n = 5" | "n = 6" | "n = 7" by arith
  then show "bit (byte_of (signed_drop_bit 4 v AND 0x0F0F0F0F) k) n = bit (drop_bit 4 (byte_of v k)) n"
    using assms by cases (auto simp: byte_of_def bit_simps)
qed

lemma sint_eq_uint_small:
  assumes "uint (w :: 8 word) < 128"
  shows "sint w = uint w"
proof -
  have "sint w = signed_take_bit 7 (uint w)" using sint_uint[of w] by simp
  also have "\<dots> = uint w"
  proof (rule signed_take_bit_int_eq_self)
    have "0 \<le> uint w" by simp
    moreover have "- (2 ^ 7) \<le> (0::int)" by simp
    ultimately show "- (2 ^ 7) \<le> uint w" by (rule order_trans[rotated])
    show "uint w < 2 ^ 7" using assms by simp
  qed
  finally show ?thesis .
qed

lemma nibble_low: "sint (b AND 0xF :: 8 word) = uint (b AND 0xF)" "0 \<le> uint (b AND 0xF)" "uint (b AND 0xF :: 8 word) \<le> 15"
proof -
  have "b AND 0xF = b AND mask 4" by (simp add: mask_eq_exp_minus_1)
  then have lt: "uint (b AND 0xF) < 2 ^ 4" using and_mask_lt_2p[of b 4] by simp
  then show "uint (b AND 0xF :: 8 word) \<le> 15" by simp
  show "0 \<le> uint (b AND 0xF)" by simp
  from lt show "sint (b AND 0xF :: 8 word) = uint (b AND 0xF)"
    by (intro sint_eq_uint_small) simp
qed

lemma nibble_high: "sint (drop_bit 4 b :: 8 word) = uint (drop_bit 4 b)" "0 \<le> uint (drop_bit 4 b)" "uint (drop_bit 4 b :: 8 word) \<le> 15"
proof -
  define h where "h = (drop_bit 4 b :: 8 word)"
  have "unat h = drop_bit 4 (unat b)" unfolding h_def by (rule unat_drop_bit_eq)
  then have e: "unat h = unat b div 16" by (simp only: drop_bit_eq_div) simp
  have "unat b < 2 ^ 8" using unsigned_less[of b] by simp
  then have "unat b div 16 < 16" by simp
  with e have "unat h < 16" by (simp only:)
  moreover have "uint h = int (unat h)" by (rule uint_nat)
  ultimately have lt: "uint h < 16" by linarith
  then have "uint h \<le> 15" by simp
  then show "uint (drop_bit 4 b :: 8 word) \<le> 15" by (simp only: h_def)
  have "0 \<le> uint h" by simp
  then show "0 \<le> uint (drop_bit 4 b)" by (simp only: h_def)
  from lt have "sint h = uint h"
    by (intro sint_eq_uint_small) simp
  then show "sint (drop_bit 4 b :: 8 word) = uint (drop_bit 4 b)" by (simp only: h_def)
qed

lemma sint_word_of_int_32:
  assumes "- (2 ^ 31) \<le> x" "x < 2 ^ 31"
  shows "sint (word_of_int x :: 32 word) = x"
proof -
  have "(x + 2 ^ 31) mod 2 ^ 32 = x + 2 ^ 31"
    using assms by (intro mod_pos_pos_trivial) simp_all
  then show ?thesis by (simp add: int_word_sint)
qed

lemma product_bound:
  fixes a b :: int
  assumes "0 \<le> a" "a \<le> 15" "- 128 \<le> b" "b \<le> 127"
  shows "- 1920 \<le> a * b" "a * b \<le> 1920"
proof -
  have "a * b \<le> a * 127" using assms by (intro mult_left_mono) simp_all
  with assms show "a * b \<le> 1920" by linarith
  have "a * (- 128) \<le> a * b" using assms by (intro mult_left_mono) simp_all
  with assms show "- 1920 \<le> a * b" by linarith
qed

lemma sint8_range: "- 128 \<le> sint (b :: 8 word)" "sint (b :: 8 word) \<le> 127"
  using sint_ge[of b] sint_lt[of b] by simp_all


lemma upt_4: "[0..<4] = [0, 1, 2, 3::nat]"
  by (simp add: upt_rec)

lemma sint_dp4a:
  assumes a: "\<And>k. k < 4 \<Longrightarrow> 0 \<le> sint (byte_of a k) \<and> sint (byte_of a k) \<le> 15"
    and c: "- (2 ^ 30) \<le> sint c" "sint c \<le> 2 ^ 30"
  shows "sint (dp4a a b c) = sint c + (\<Sum>k\<leftarrow>[0..<4]. sint (byte_of a k) * sint (byte_of b k))"
    and "\<bar>\<Sum>k\<leftarrow>[0..<4]. sint (byte_of a k) * sint (byte_of b k)\<bar> \<le> 7680"
proof -
  define p where "p k = sint (byte_of a k) * sint (byte_of b k)" for k
  have pb: "- 1920 \<le> p k \<and> p k \<le> 1920" if "k < 4" for k
    unfolding p_def using product_bound[of "sint (byte_of a k)" "sint (byte_of b k)"] a[OF that] sint8_range[of "byte_of b k"]
    by simp
  have s: "(\<Sum>k\<leftarrow>[0..<4]. sint (byte_of a k) * sint (byte_of b k)) = p 0 + p 1 + p 2 + p 3"
    by (simp add: upt_4 p_def)
  from pb[of 0] pb[of 1] pb[of 2] pb[of 3] have b: "\<bar>p 0 + p 1 + p 2 + p 3\<bar> \<le> 7680" by linarith
  then show "\<bar>\<Sum>k\<leftarrow>[0..<4]. sint (byte_of a k) * sint (byte_of b k)\<bar> \<le> 7680" by (simp only: s)
  have "sint (word_of_int (sint c + (p 0 + p 1 + p 2 + p 3)) :: 32 word) = sint c + (p 0 + p 1 + p 2 + p 3)"
    using b c by (intro sint_word_of_int_32) simp_all
  then show "sint (dp4a a b c) = sint c + (\<Sum>k\<leftarrow>[0..<4]. sint (byte_of a k) * sint (byte_of b k))"
    unfolding dp4a_def s .
qed

lemma lt4_cases: "k < 4 \<Longrightarrow> k = 0 \<or> k = 1 \<or> k = 2 \<or> k = (3::nat)"
  by arith

lemma byte_of_uint8:
  "k < 4 \<Longrightarrow> byte_of (get_int_from_uint8 x8 i) k = x8 ! (4 * i + k)"
  using byte_of_get_int_from_uint8[of x8 i] by (auto dest!: lt4_cases)

lemma byte_of_int8:
  "k < 4 \<Longrightarrow> byte_of (get_int_from_int8_aligned x8 i) k = x8 ! (4 * i + k)"
  using byte_of_get_int_from_int8_aligned[of x8 i] by (auto dest!: lt4_cases)

lemma byte_of_low: "k < 4 \<Longrightarrow> byte_of (signed_drop_bit 0 v AND 0x0F0F0F0F) k = byte_of v k AND 0xF"
  using byte_of_low_aux[OF lt4_cases] by simp

lemma byte_of_high: "k < 4 \<Longrightarrow> byte_of (signed_drop_bit 4 v AND 0x0F0F0F0F) k = drop_bit 4 (byte_of v k)"
  using byte_of_high_aux[OF lt4_cases] by simp

lemma sum_upt_4_cong:
  assumes "\<And>k. k < 4 \<Longrightarrow> f k = (g k :: int)"
  shows "(\<Sum>k\<leftarrow>[0..<4]. f k) = (\<Sum>k\<leftarrow>[0..<4]. g k)"
  by (rule arg_cong[where f = sum_list], rule map_cong) (use assms in auto)

lemma dp4a_low:
  assumes "j < 4" "- (2 ^ 30) \<le> sint c" "sint c \<le> 2 ^ 30"
  shows "sint (dp4a (signed_drop_bit 0 (get_int_from_uint8 (qs4 x) j) AND 0x0F0F0F0F)
                    (get_int_from_int8_aligned (qs8 y) j) c) = sint c + low_products x y j"
    and "\<bar>low_products x y j\<bar> \<le> 7680"
proof -
  define a where "a = signed_drop_bit 0 (get_int_from_uint8 (qs4 x) j) AND 0x0F0F0F0F"
  define b where "b = get_int_from_int8_aligned (qs8 y) j"
  have ab: "byte_of a k = qs4 x ! (4 * j + k) AND 0xF" if "k < 4" for k
    unfolding a_def by (simp only: byte_of_low[OF that] byte_of_uint8[OF that])
  have lt: "4 * j + k < QK4_0 div 2" if "k < 4" for k
    using that assms(1) by (simp add: QK4_0_def)
  have ak: "sint (byte_of a k) = code_q4_0 x (4 * j + k)" if "k < 4" for k
    by (simp only: ab[OF that] nibble_low(1) code_q4_0_def lt[OF that] if_True)
  have bk: "sint (byte_of b k) = code_q8_1 y (4 * j + k)" if "k < 4" for k
    unfolding b_def by (simp only: byte_of_int8[OF that] code_q8_1_def)
  have rng: "0 \<le> sint (byte_of a k) \<and> sint (byte_of a k) \<le> 15" if "k < 4" for k
    unfolding ab[OF that] using nibble_low[of "qs4 x ! (4 * j + k)"] by simp
  have e: "(\<Sum>k\<leftarrow>[0..<4]. sint (byte_of a k) * sint (byte_of b k)) = low_products x y j"
    unfolding low_products_def by (rule sum_upt_4_cong) (simp only: ak bk)
  note r = sint_dp4a[of a c b, OF rng assms(2,3), unfolded e, unfolded a_def b_def]
  show "sint (dp4a (signed_drop_bit 0 (get_int_from_uint8 (qs4 x) j) AND 0x0F0F0F0F)
                    (get_int_from_int8_aligned (qs8 y) j) c) = sint c + low_products x y j"
    by (rule r(1))
  show "\<bar>low_products x y j\<bar> \<le> 7680"
    by (rule r(2))
qed

lemma dp4a_high:
  assumes "j < 4" "- (2 ^ 30) \<le> sint c" "sint c \<le> 2 ^ 30"
  shows "sint (dp4a (signed_drop_bit 4 (get_int_from_uint8 (qs4 x) j) AND 0x0F0F0F0F)
                    (get_int_from_int8_aligned (qs8 y) (j + 4)) c) = sint c + high_products x y j"
    and "\<bar>high_products x y j\<bar> \<le> 7680"
proof -
  define a where "a = signed_drop_bit 4 (get_int_from_uint8 (qs4 x) j) AND 0x0F0F0F0F"
  define b where "b = get_int_from_int8_aligned (qs8 y) (j + 4)"
  have ab: "byte_of a k = drop_bit 4 (qs4 x ! (4 * j + k))" if "k < 4" for k
    unfolding a_def by (simp only: byte_of_high[OF that] byte_of_uint8[OF that])
  have lt: "\<not> 4 * j + k + 16 < QK4_0 div 2" "4 * j + k + 16 - QK4_0 div 2 = 4 * j + k" for k
    by (simp_all add: QK4_0_def)
  have ak: "sint (byte_of a k) = code_q4_0 x (4 * j + k + 16)" if "k < 4" for k
    by (simp only: ab[OF that] nibble_high(1) code_q4_0_def lt if_False)
  have "4 * (j + 4) + k = 4 * j + k + 16" for k by simp
  then have bk: "sint (byte_of b k) = code_q8_1 y (4 * j + k + 16)" if "k < 4" for k
    unfolding b_def by (simp only: byte_of_int8[OF that] code_q8_1_def)
  have rng: "0 \<le> sint (byte_of a k) \<and> sint (byte_of a k) \<le> 15" if "k < 4" for k
    unfolding ab[OF that] using nibble_high[of "qs4 x ! (4 * j + k)"] by simp
  have e: "(\<Sum>k\<leftarrow>[0..<4]. sint (byte_of a k) * sint (byte_of b k)) = high_products x y j"
    unfolding high_products_def by (rule sum_upt_4_cong) (simp only: ak bk)
  note r = sint_dp4a[of a c b, OF rng assms(2,3), unfolded e, unfolded a_def b_def]
  show "sint (dp4a (signed_drop_bit 4 (get_int_from_uint8 (qs4 x) j) AND 0x0F0F0F0F)
                    (get_int_from_int8_aligned (qs8 y) (j + 4)) c) = sint c + high_products x y j"
    by (rule r(1))
  show "\<bar>high_products x y j\<bar> \<le> 7680"
    by (rule r(2))
qed


lemma upt_2: "[0..<2] = [0, 1::nat]"
  by (simp add: upt_rec)

lemma vec_dot_q4_0_q8_1_call:
  assumes "iqs + 1 < 4"
  shows "vec_dot_q4_0_q8_1 x y iqs =
     d4 x * (real_of_int (low_products x y iqs + high_products x y iqs
                          + low_products x y (iqs + 1) + high_products x y (iqs + 1)) * fst (ds y)
             - 4 * snd (ds y))"
proof -
  have j0: "iqs < 4" and j1: "iqs + 1 < 4" using assms by simp_all
  define v0 where "v0 = get_int_from_uint8 (qs4 x) iqs"
  define v1 where "v1 = get_int_from_uint8 (qs4 x) (iqs + 1)"
  define s1 where "s1 = dp4a (signed_drop_bit 0 v0 AND 0x0F0F0F0F) (get_int_from_int8_aligned (qs8 y) iqs) 0"
  define s2 where "s2 = dp4a (signed_drop_bit 4 v0 AND 0x0F0F0F0F) (get_int_from_int8_aligned (qs8 y) (iqs + 4)) s1"
  define s3 where "s3 = dp4a (signed_drop_bit 0 v1 AND 0x0F0F0F0F) (get_int_from_int8_aligned (qs8 y) (iqs + 1)) s2"
  define s4 where "s4 = dp4a (signed_drop_bit 4 v1 AND 0x0F0F0F0F) (get_int_from_int8_aligned (qs8 y) (iqs + 1 + 4)) s3"
  have l0: "\<bar>low_products x y iqs\<bar> \<le> 7680" and h0: "\<bar>high_products x y iqs\<bar> \<le> 7680"
    and l1: "\<bar>low_products x y (iqs + 1)\<bar> \<le> 7680" and h1: "\<bar>high_products x y (iqs + 1)\<bar> \<le> 7680"
    using dp4a_low(2)[OF j0, of 0 x y] dp4a_high(2)[OF j0, of 0 x y]
      dp4a_low(2)[OF j1, of 0 x y] dp4a_high(2)[OF j1, of 0 x y] by simp_all
  have e1: "sint s1 = low_products x y iqs"
    unfolding s1_def v0_def using dp4a_low(1)[OF j0, of 0 x y] by simp
  have e2: "sint s2 = low_products x y iqs + high_products x y iqs"
    unfolding s2_def v0_def using dp4a_high(1)[OF j0, of s1 x y] e1 l0 by simp
  have e3: "sint s3 = low_products x y iqs + high_products x y iqs + low_products x y (iqs + 1)"
    unfolding s3_def v1_def using dp4a_low(1)[OF j1, of s2 x y] e2 l0 h0 by simp
  have e4: "sint s4 = low_products x y iqs + high_products x y iqs + low_products x y (iqs + 1)
                      + high_products x y (iqs + 1)"
    unfolding s4_def v1_def using dp4a_high(1)[OF j1, of s3 x y] e3 l0 h0 l1 by simp
  have "vec_dot_q4_0_q8_1 x y iqs = d4 x * (real_of_int (sint s4) * fst (ds y) - 4 * snd (ds y))"
    by (simp add: vec_dot_q4_0_q8_1_def vec_dot_q4_0_q8_1_impl_def VDR_Q4_0_Q8_1_MMVQ_def upt_2
        QI4_0_def QK4_0_def QR4_0_def Let_def s4_def s3_def s2_def s1_def v0_def v1_def)
  then show ?thesis by (simp only: e4)
qed


lemma products_total:
  "low_products x y 0 + high_products x y 0 + low_products x y 1 + high_products x y 1
   + (low_products x y 2 + high_products x y 2 + low_products x y 3 + high_products x y 3)
   = (\<Sum>j<32. code_q4_0 x j * code_q8_1 y j)"
  by (simp add: low_products_def high_products_def upt_4 lessThan_nat_numeral lessThan_Suc)

lemma vec_dot_q4_0_q8_1_block_sum:
  "vec_dot_q4_0_q8_1_block x y =
     d4 x * (fst (ds y) * real_of_int (\<Sum>j<32. code_q4_0 x j * code_q8_1 y j) - 8 * snd (ds y))"
proof -
  have "vec_dot_q4_0_q8_1_block x y = vec_dot_q4_0_q8_1 x y 0 + vec_dot_q4_0_q8_1 x y 2"
    by (simp add: vec_dot_q4_0_q8_1_block_def QI4_0_def QK4_0_def QR4_0_def VDR_Q4_0_Q8_1_MMVQ_def upt_2)
  also have "\<dots> = d4 x * (fst (ds y) * real_of_int
       (low_products x y 0 + high_products x y 0 + low_products x y 1 + high_products x y 1
        + (low_products x y 2 + high_products x y 2 + low_products x y 3 + high_products x y 3))
       - 8 * snd (ds y))"
  proof -
    have c0: "vec_dot_q4_0_q8_1 x y 0 = d4 x * (real_of_int
        (low_products x y 0 + high_products x y 0 + low_products x y 1 + high_products x y 1) * fst (ds y)
         - 4 * snd (ds y))"
      using vec_dot_q4_0_q8_1_call[of 0 x y] by simp
    have c2: "vec_dot_q4_0_q8_1 x y 2 = d4 x * (real_of_int
        (low_products x y 2 + high_products x y 2 + low_products x y 3 + high_products x y 3) * fst (ds y)
         - 4 * snd (ds y))"
      using vec_dot_q4_0_q8_1_call[of 2 x y] by simp
    show ?thesis unfolding c0 c2 by (simp add: algebra_simps)
  qed
  finally show ?thesis by (simp only: products_total)
qed

lemma dequantized_q4_0_code:
  "dequantized_q4_0 x j = (real_of_int (code_q4_0 x j) - 8) * d4 x"
  by (simp add: dequantized_q4_0_def dequantize_q4_0_def code_q4_0_def Let_def)

lemma reference_dot_sum:
  "reference_dot x q = d4 x * ((\<Sum>j<32. real_of_int (code_q4_0 x j) * q j) - 8 * (\<Sum>j<32. q j))"
  by (simp add: reference_dot_def QK4_0_def dequantized_q4_0_code algebra_simps sum_subtractf
      sum_distrib_left sum_distrib_right)


lemma dequantized_q8_1_fun:
  "dequantized_q8_1 y = (\<lambda>j. fst (ds y) * real_of_int (code_q8_1 y j))"
  by (simp add: fun_eq_iff dequantized_q8_1_def)

text \<open>
  Claim C1 (as amended). For a Q4_0 block \<open>x\<close> of 16 bytes and a Q8_1 block \<open>y\<close> of 32 codes, the
  fixed-point routine \<^verbatim>\<open>vec_dot_q4_0_q8_1\<close>, summed over the work-items of the block, computes, in
  exact arithmetic, \<open>d4 * (d8 * (\<Sum>j. code4 j * code8 j) - 8 * s8)\<close>, where \<open>(d8, s8)\<close> is the pair
  \<open>ds\<close> of the query block. Its difference from the reference dot product of the dequantized
  weights \<open>(code4 j - 8) * d4\<close> with a query vector \<open>q\<close> is the sum of the quantization error of the
  query, weighted by the codes, and of \<open>8 * d4\<close> times the error of the stored sum. When the stored
  sum \<open>s8\<close> is \<open>d8\<close> times the sum of the codes, the routine equals the reference dot product with
  the dequantized query \<open>d8 * code8 j\<close>.
\<close>

theorem vec_dot_q4_0_q8_1_block_exact:
  assumes "length (qs4 x) = QK4_0 div 2" and "length (qs8 y) = QK8_1"
  shows "vec_dot_q4_0_q8_1_block x y =
           d4 x * (fst (ds y) * real_of_int (\<Sum>j<32. code_q4_0 x j * code_q8_1 y j) - 8 * snd (ds y))
       \<and> vec_dot_q4_0_q8_1_block x y - reference_dot x q =
           d4 x * (\<Sum>j<32. real_of_int (code_q4_0 x j) * (fst (ds y) * real_of_int (code_q8_1 y j) - q j))
           + 8 * d4 x * ((\<Sum>j<32. q j) - snd (ds y))
       \<and> (snd (ds y) = fst (ds y) * real_of_int (\<Sum>j<32. code_q8_1 y j) \<longrightarrow>
            vec_dot_q4_0_q8_1_block x y = reference_dot x (dequantized_q8_1 y))"
  unfolding dequantized_q8_1_fun
proof (intro conjI impI)
  show 1: "vec_dot_q4_0_q8_1_block x y =
           d4 x * (fst (ds y) * real_of_int (\<Sum>j<32. code_q4_0 x j * code_q8_1 y j) - 8 * snd (ds y))"
    by (rule vec_dot_q4_0_q8_1_block_sum)
  have split: "(\<Sum>j<32. real_of_int (code_q4_0 x j) * (fst (ds y) * real_of_int (code_q8_1 y j) - r j))
      = fst (ds y) * real_of_int (\<Sum>j<32. code_q4_0 x j * code_q8_1 y j)
        - (\<Sum>j<32. real_of_int (code_q4_0 x j) * r j)" for r
    by (simp add: algebra_simps sum_subtractf sum_distrib_left)
  show 2: "vec_dot_q4_0_q8_1_block x y - reference_dot x q =
           d4 x * (\<Sum>j<32. real_of_int (code_q4_0 x j) * (fst (ds y) * real_of_int (code_q8_1 y j) - q j))
           + 8 * d4 x * ((\<Sum>j<32. q j) - snd (ds y))"
    unfolding split vec_dot_q4_0_q8_1_block_sum reference_dot_sum by (simp add: algebra_simps)
  assume s: "snd (ds y) = fst (ds y) * real_of_int (\<Sum>j<32. code_q8_1 y j)"
  have "reference_dot x (\<lambda>j. fst (ds y) * real_of_int (code_q8_1 y j))
      = d4 x * (fst (ds y) * real_of_int (\<Sum>j<32. code_q4_0 x j * code_q8_1 y j)
                - 8 * (fst (ds y) * real_of_int (\<Sum>j<32. code_q8_1 y j)))"
    unfolding reference_dot_sum by (simp add: algebra_simps sum_distrib_left)
  then show "vec_dot_q4_0_q8_1_block x y = reference_dot x (\<lambda>j. fst (ds y) * real_of_int (code_q8_1 y j))"
    unfolding vec_dot_q4_0_q8_1_block_sum s by simp
qed


lemma spike_codes:
  "(\<Sum>j<32. code_q4_0 spike_weights j * code_q8_1 y j) = 15 * code_q8_1 y 0 + 8 * (\<Sum>j\<in>{1..<32}. code_q8_1 y j)"
  by (simp add: code_q4_0_def spike_weights_def QK4_0_def lessThan_nat_numeral lessThan_Suc
      atLeastLessThan_nat_numeral atLeastLessThanSuc)

lemma small_query_codes:
  "code_q8_1 small_query_block 0 = 1" "(\<Sum>j\<in>{1..<32}. code_q8_1 small_query_block j) = 2"
  "(\<Sum>j<32. code_q8_1 small_query_block j) = 3"
  by (simp_all add: code_q8_1_def small_query_block_def lessThan_nat_numeral lessThan_Suc
      atLeastLessThan_nat_numeral atLeastLessThanSuc)

text \<open>The theorem at the example weights and the example query block.\<close>

theorem vec_dot_q4_0_q8_1_block_exact_witness:
  "length (qs4 spike_weights) = QK4_0 div 2 \<and> length (qs8 small_query_block) = QK8_1
   \<and> vec_dot_q4_0_q8_1_block spike_weights small_query_block = 7 / 2
   \<and> reference_dot spike_weights (dequantized_q8_1 small_query_block) = 7 / 2"
proof -
  have l4: "length (qs4 spike_weights) = QK4_0 div 2" by (simp add: spike_weights_def QK4_0_def)
  have l8: "length (qs8 small_query_block) = QK8_1" by (simp add: small_query_block_def QK8_1_def)
  note t = vec_dot_q4_0_q8_1_block_exact[OF l4 l8]
  have s: "snd (ds small_query_block) = fst (ds small_query_block) * real_of_int (\<Sum>j<32. code_q8_1 small_query_block j)"
    by (simp add: small_query_codes) (simp add: small_query_block_def)
  have v: "vec_dot_q4_0_q8_1_block spike_weights small_query_block = 7 / 2"
    unfolding t[THEN conjunct1] spike_codes small_query_codes
    by (simp add: small_query_block_def spike_weights_def)
  from t[THEN conjunct2, THEN conjunct2, rule_format, OF s] v l4 l8 show ?thesis by simp
qed


lemma spike_query_amax:
  "Max ((\<lambda>l. \<bar>quantize_q8_1_xi spike_query 32 0 (0 + l)\<bar>) ` {..<32}) = 127"
  by (simp add: quantize_q8_1_xi_def spike_query_def lessThan_nat_numeral lessThan_Suc)

lemma spike_query_sum:
  "(\<Sum>l<32. quantize_q8_1_xi spike_query 32 0 (0 + l)) = 509 / 4"
  by (simp add: quantize_q8_1_xi_def spike_query_def lessThan_nat_numeral lessThan_Suc)

lemma spike_query_store:
  assumes "l < 32"
  shows "quantize_q8_1 spike_query 32 32 0 0 l =
     Some \<lparr> store_ib = 0, store_iqs = l,
            store_q = Some (if l = 1 then 127 else 0),
            store_ds = (if l > 0 then None else Some (Some 1, Some (509 / 4))) \<rparr>"
proof -
  have r: "sycl_round (spike_query l) = (if l = 1 then 127 else 0)"
    by (simp add: spike_query_def sycl_round_def)
  have p: "0 + l < (32::nat)" using assms by simp
  have e: "- 149 \<le> (- 2 :: int)" "(- 2 :: int) \<le> 104" "(508::int) * 32 < 2 ^ 24" by simp_all
  have g: "\<forall>j<32. \<exists>m. quantize_q8_1_xi spike_query 32 0 (0 + j) = of_int m * 2 powi (- 2) \<and> \<bar>m\<bar> \<le> (508::int)"
  proof (intro allI impI)
    fix j :: nat assume "j < 32"
    show "\<exists>m. quantize_q8_1_xi spike_query 32 0 (0 + j) = of_int m * 2 powi (- 2) \<and> \<bar>m\<bar> \<le> (508::int)"
      by (rule exI[of _ "if j = 0 then 1 else if j = 1 then 508 else 0"])
         (simp add: quantize_q8_1_xi_def spike_query_def power_int_def power_one_over)
  qed
  have d: "float32 (127 / 127) = 1" using float32_exact[of 1 0] by simp
  have f: "to_float (spike_query l) = Some (spike_query l)"
    using to_float_exact[of 1 "- 2"] to_float_exact[of 127 0]
    by (simp add: spike_query_def power_int_def power_one_over)
  have h: "to_half 1 = Some 1" "to_half (509 / 4) = Some (509 / 4)"
    using to_half_exact[of 1 0] to_half_exact[of 509 "- 2"]
    by (simp_all add: power_int_def power_one_over)
  note ev = quantize_q8_1_eval[OF assms p e g, unfolded Let_def spike_query_amax spike_query_sum d h]
  show ?thesis
    unfolding ev using assms r f by (simp add: QK8_1_def fdiv_def quantize_q8_1_xi_def float_to_int8_def)
qed

lemma spike_query_block_ds: "ds (q8_1_block_of spike_query) = (1, 509 / 4)"
  by (simp add: q8_1_block_of_def spike_query_store)

lemma spike_query_block_code:
  assumes "j < 32"
  shows "code_q8_1 (q8_1_block_of spike_query) j = (if j = 1 then 127 else 0)"
  using assms by (simp add: code_q8_1_def q8_1_block_of_def spike_query_store)

lemma spike_query_block_codes:
  "code_q8_1 (q8_1_block_of spike_query) 0 = 0"
  "(\<Sum>j\<in>{1..<32}. code_q8_1 (q8_1_block_of spike_query) j) = 127"
proof -
  show "code_q8_1 (q8_1_block_of spike_query) 0 = 0" by (simp add: spike_query_block_code)
  have "(\<Sum>j\<in>{1..<32}. code_q8_1 (q8_1_block_of spike_query) j) = (\<Sum>j\<in>{1..<32::nat}. if j = 1 then 127 else 0)"
    by (rule sum.cong) (simp_all add: spike_query_block_code)
  then show "(\<Sum>j\<in>{1..<32}. code_q8_1 (q8_1_block_of spike_query) j) = 127" by simp
qed

lemma spike_vec_dot: "vec_dot_q4_0_q8_1_block spike_weights (q8_1_block_of spike_query) = - 2"
  unfolding vec_dot_q4_0_q8_1_block_sum spike_codes spike_query_block_codes spike_query_block_ds
  by (simp add: spike_weights_def)

lemma spike_reference: "reference_dot spike_weights spike_query = 7 / 4"
  by (simp add: reference_dot_def dequantized_q4_0_def dequantize_q4_0_def spike_weights_def
      spike_query_def QK4_0_def Let_def lessThan_nat_numeral lessThan_Suc)

lemma spike_reference_dequantized:
  "reference_dot spike_weights (dequantized_q8_1 (q8_1_block_of spike_query)) = 0"
proof -
  have "(\<Sum>j<32. dequantized_q4_0 spike_weights j
            * (fst (ds (q8_1_block_of spike_query)) * real_of_int (code_q8_1 (q8_1_block_of spike_query) j)))
      = (\<Sum>j<32. dequantized_q4_0 spike_weights j * (if j = 1 then 127 else 0))"
    by (rule sum.cong) (simp_all add: spike_query_block_code spike_query_block_ds)
  then show ?thesis
    unfolding dequantized_q8_1_fun
    by (simp add: reference_dot_def QK4_0_def dequantized_q4_0_def dequantize_q4_0_def spike_weights_def
        Let_def lessThan_nat_numeral lessThan_Suc)
qed

text \<open>
  Claim C1 (as stated) fails: for the weights 7, 0, 0, ... of scale 1 and the query 1/4, 127, 0, ...,
  quantized by \<^verbatim>\<open>quantize_q8_1\<close>, the routine returns -2, the reference dot product with the query
  vector is 7/4 and the reference dot product with the dequantized query block is 0; the difference
  is not within a rounding tolerance of either.
\<close>

theorem vec_dot_q4_0_q8_1_not_within_tolerance:
  "vec_dot_q4_0_q8_1_block spike_weights (q8_1_block_of spike_query) = - 2
   \<and> reference_dot spike_weights spike_query = 7 / 4
   \<and> reference_dot spike_weights (dequantized_q8_1 (q8_1_block_of spike_query)) = 0
   \<and> \<not> \<bar>vec_dot_q4_0_q8_1_block spike_weights (q8_1_block_of spike_query)
           - reference_dot spike_weights spike_query\<bar>
         \<le> 1 / 1000 * \<bar>reference_dot spike_weights spike_query\<bar>
   \<and> \<not> \<bar>vec_dot_q4_0_q8_1_block spike_weights (q8_1_block_of spike_query)
           - reference_dot spike_weights (dequantized_q8_1 (q8_1_block_of spike_query))\<bar>
         \<le> 1 / 1000 * \<bar>reference_dot spike_weights (dequantized_q8_1 (q8_1_block_of spike_query))\<bar>"
  by (simp add: spike_vec_dot spike_reference spike_reference_dequantized)


section \<open>The softmax kernel computes the softmax unless a sub-group reads late\<close>

lemma nth_loop_32:
  "nth_loop n WARP_SIZE =
     (if n \<le> 32 then 32 else if n \<le> 64 then 64 else if n \<le> 128 then 128 else if n \<le> 256 then 256
      else if n \<le> 512 then 512 else 1024)"
  by (simp add: WARP_SIZE_def SYCL_SOFT_MAX_BLOCK_SIZE_def nth_loop.simps[of n 32] nth_loop.simps[of n 64]
      nth_loop.simps[of n 128] nth_loop.simps[of n 256] nth_loop.simps[of n 512] nth_loop.simps[of n 1024])

lemma thread_cols_set:
  assumes "0 < bs" "tid < bs" "bs dvd col0" "ct = 0 \<or> bs dvd ncols"
  shows "set (thread_cols ct ncols bs tid col0) = {c. col0 \<le> c \<and> c < ncols \<and> c mod bs = tid}
       \<and> distinct (thread_cols ct ncols bs tid col0)"
  using assms
proof (induction ct ncols bs tid col0 rule: thread_cols.induct)
  case (1 ct ncols bs tid col0)
  have low: "col0 + tid \<le> c" if "col0 \<le> c" "c mod bs = tid" for c
  proof -
    from \<open>bs dvd col0\<close> obtain q where q: "col0 = bs * q" by (auto simp: dvd_def)
    have "c = bs * (c div bs) + tid" using that by (metis mult_div_mod_eq)
    moreover have "q \<le> c div bs" using that q \<open>0 < bs\<close>
      by (metis div_le_mono nonzero_mult_div_cancel_left less_numeral_extra(3))
    then have "bs * q \<le> bs * (c div bs)" by simp
    ultimately show ?thesis using q by linarith
  qed
  show ?case
  proof (cases "col0 < ncols")
    case False
    then show ?thesis by (auto simp: thread_cols.simps[of ct ncols bs tid col0])
  next
    case lt: True
    show ?thesis
    proof (cases "ct = 0 \<and> col0 + tid \<ge> ncols")
      case True
      have e: "thread_cols ct ncols bs tid col0 = []"
        using True by (subst thread_cols.simps) (simp add: Let_def)
      have "{c. col0 \<le> c \<and> c < ncols \<and> c mod bs = tid} = {}"
      proof -
        have False if "col0 \<le> c" "c < ncols" "c mod bs = tid" for c
          using low[OF that(1,3)] that(2) True by simp
        then show ?thesis by blast
      qed
      then show ?thesis using e by simp
    next
      case False
      have col: "col0 + tid < ncols"
      proof (cases "ct = 0")
        case True then show ?thesis using False by simp
      next
        case False
        then have "bs dvd ncols" using "1.prems" by simp
        then obtain r where r: "ncols = bs * r" by (auto simp: dvd_def)
        from \<open>bs dvd col0\<close> obtain q where q: "col0 = bs * q" by (auto simp: dvd_def)
        have "q < r" using lt q r \<open>0 < bs\<close> by simp
        then have "bs * (q + 1) \<le> bs * r" by (simp del: mult_Suc_right)
        then show ?thesis using q r \<open>tid < bs\<close> by simp
      qed
      have dv: "bs dvd col0 + bs" using \<open>bs dvd col0\<close> by simp
      note IH = "1.IH"[OF _ refl False \<open>0 < bs\<close> \<open>tid < bs\<close> dv "1.prems"(4)]
      have IH': "set (thread_cols ct ncols bs tid (col0 + bs)) = {c. col0 + bs \<le> c \<and> c < ncols \<and> c mod bs = tid}"
        "distinct (thread_cols ct ncols bs tid (col0 + bs))"
        using IH lt \<open>0 < bs\<close> by simp_all
      have unf: "thread_cols ct ncols bs tid col0 = (col0 + tid) # thread_cols ct ncols bs tid (col0 + bs)"
        using lt \<open>0 < bs\<close> False by (subst thread_cols.simps) (simp add: Let_def)
      have m: "(col0 + tid) mod bs = tid" using \<open>bs dvd col0\<close> \<open>tid < bs\<close>
        by (simp add: mod_add_left_eq[symmetric])
      have split: "{c. col0 \<le> c \<and> c < ncols \<and> c mod bs = tid}
          = insert (col0 + tid) {c. col0 + bs \<le> c \<and> c < ncols \<and> c mod bs = tid}"
      proof (intro set_eqI iffI)
        fix c assume "c \<in> {c. col0 \<le> c \<and> c < ncols \<and> c mod bs = tid}"
        then have c: "col0 \<le> c" "c < ncols" "c mod bs = tid" by auto
        show "c \<in> insert (col0 + tid) {c. col0 + bs \<le> c \<and> c < ncols \<and> c mod bs = tid}"
        proof (cases "c = col0 + tid")
          case True then show ?thesis by simp
        next
          case False
          from \<open>bs dvd col0\<close> obtain q where q: "col0 = bs * q" by (auto simp: dvd_def)
          have ceq: "c = bs * (c div bs) + tid" using c by (metis mult_div_mod_eq)
          have "q \<le> c div bs" using c q \<open>0 < bs\<close>
            by (metis div_le_mono nonzero_mult_div_cancel_left less_numeral_extra(3))
          moreover have "c div bs \<noteq> q" using False ceq q by auto
          ultimately have "q + 1 \<le> c div bs" by simp
          then have "bs * (q + 1) \<le> bs * (c div bs)" by (rule mult_le_mono2)
          then have "col0 + bs \<le> c" using q ceq by simp
          then show ?thesis using c by simp
        qed
      next
        fix c assume "c \<in> insert (col0 + tid) {c. col0 + bs \<le> c \<and> c < ncols \<and> c mod bs = tid}"
        then show "c \<in> {c. col0 \<le> c \<and> c < ncols \<and> c mod bs = tid}"
          using col m by auto
      qed
      have notin: "col0 + tid \<notin> set (thread_cols ct ncols bs tid (col0 + bs))"
        using IH'(1) \<open>tid < bs\<close> by simp
      show ?thesis unfolding unf split using IH' notin by simp
    qed
  qed
qed

lemma max_loop_eq:
  "max_loop val cols (vals, m) =
     (\<lambda>c. if c \<in> set cols then val c else vals c, fold (\<lambda>col m. max m (Some (val col))) cols m)"
proof (induction cols arbitrary: vals m)
  case Nil
  show ?case by (simp add: max_loop_def)
next
  case (Cons col cols)
  have "max_loop val (col # cols) (vals, m) = max_loop val cols (vals(col := val col), max m (Some (val col)))"
    by (simp add: max_loop_def)
  also have "\<dots> = (\<lambda>c. if c \<in> set cols then val c else (vals(col := val col)) c,
                    fold (\<lambda>col m. max m (Some (val col))) cols (max m (Some (val col))))"
    by (rule Cons.IH)
  finally show ?case by (auto simp: fun_eq_iff)
qed

lemma fold_max_Some:
  fixes f :: "nat \<Rightarrow> real"
  shows "fold (\<lambda>col m. max m (Some (f col))) cols m =
           (if cols = [] then m else max m (Some (Max (f ` set cols))))"
proof (induction cols arbitrary: m)
  case Nil
  show ?case by simp
next
  case (Cons col cols)
  show ?case
  proof (cases "cols = []")
    case True
    then show ?thesis by simp
  next
    case False
    have "Max (f ` set (col # cols)) = max (f col) (Max (f ` set cols))"
      using False by simp
    then have "Some (Max (f ` set (col # cols))) = max (Some (f col)) (Some (Max (f ` set cols)))"
      by (simp add: max_def)
    then show ?thesis using False Cons.IH[of "max m (Some (f col))"]
      by (simp add: max.assoc)
  qed
qed

lemma exp_loop_eq:
  assumes "distinct cols"
  shows "exp_loop mx cols (vals, t) =
     (\<lambda>c. if c \<in> set cols then exp (vals c - mx) else vals c, t + (\<Sum>c\<in>set cols. exp (vals c - mx)))"
  using assms
proof (induction cols arbitrary: vals t)
  case Nil
  show ?case by (simp add: exp_loop_def)
next
  case (Cons col cols)
  let ?v = "vals(col := exp (vals col - mx))"
  have d: "distinct cols" and n: "col \<notin> set cols" using Cons.prems by simp_all
  have "exp_loop mx (col # cols) (vals, t) = exp_loop mx cols (?v, t + exp (vals col - mx))"
    by (simp add: exp_loop_def Let_def)
  also have "\<dots> = (\<lambda>c. if c \<in> set cols then exp (?v c - mx) else ?v c,
                    t + exp (vals col - mx) + (\<Sum>c\<in>set cols. exp (?v c - mx)))"
    by (rule Cons.IH[OF d])
  also have "(\<Sum>c\<in>set cols. exp (?v c - mx)) = (\<Sum>c\<in>set cols. exp (vals c - mx))"
    using n by (intro sum.cong) auto
  finally show ?case using n by (auto simp: fun_eq_iff)
qed

lemma scale_loop_eq:
  "scale_loop rowx ncols vals inv_sum cols dst =
     (\<lambda>i. if i \<in> (\<lambda>c. rowx * ncols + c) ` set cols then vals (i - rowx * ncols) * inv_sum else dst i)"
proof (induction cols arbitrary: dst)
  case Nil
  show ?case by (simp add: scale_loop_def)
next
  case (Cons col cols)
  have "scale_loop rowx ncols vals inv_sum (col # cols) dst
      = scale_loop rowx ncols vals inv_sum cols (dst(rowx * ncols + col := vals col * inv_sum))"
    by (simp add: scale_loop_def)
  then show ?case unfolding Cons.IH by (auto simp: fun_eq_iff)
qed

lemma each_item_Suc:
  "each_item (Suc n) code st =
     (case each_item n code st of (shared, priv) \<Rightarrow>
        (case code n (shared, priv n) of (shared', p) \<Rightarrow> (shared', priv(n := p))))"
  by (simp add: each_item_def split: prod.splits)

lemma each_item_owned:
  fixes C :: "nat \<Rightarrow> nat set" and g :: "nat \<Rightarrow> 'v \<Rightarrow> 'v"
  assumes code: "\<And>tid s p. tid < n \<Longrightarrow>
                   code tid (s, p) = (\<lambda>c. if c \<in> C tid then g c (s c) else s c, r tid s p)"
    and loc: "\<And>tid s s' p. tid < n \<Longrightarrow> (\<forall>c\<in>C tid. s c = s' c) \<Longrightarrow> r tid s p = r tid s' p"
    and disj: "\<And>i j. i < n \<Longrightarrow> j < n \<Longrightarrow> i \<noteq> j \<Longrightarrow> C i \<inter> C j = {}"
  shows "each_item n code (s0, p0) =
           (\<lambda>c. if c \<in> (\<Union>tid<n. C tid) then g c (s0 c) else s0 c,
            \<lambda>tid. if tid < n then r tid s0 (p0 tid) else p0 tid)"
  using assms
proof (induction n)
  case 0
  show ?case by (simp add: each_item_def)
next
  case (Suc n)
  let ?S = "\<lambda>c. if c \<in> (\<Union>tid<n. C tid) then g c (s0 c) else s0 c"
  let ?P = "\<lambda>tid. if tid < n then r tid s0 (p0 tid) else p0 tid"
  have IH: "each_item n code (s0, p0) = (?S, ?P)"
    by (rule Suc.IH) (use Suc.prems in auto)
  have excl: "c \<notin> (\<Union>tid<n. C tid)" if c: "c \<in> C n" for c
  proof
    assume "c \<in> (\<Union>tid<n. C tid)"
    then obtain tid where "tid < n" "c \<in> C tid" by auto
    then show False using Suc.prems(3)[of tid n] c by auto
  qed
  have same: "\<forall>c\<in>C n. ?S c = s0 c"
    using excl by simp
  have r: "r n ?S (p0 n) = r n s0 (p0 n)"
    by (rule Suc.prems(2)[OF _ same]) simp
  have c: "code n (?S, ?P n) = (\<lambda>c. if c \<in> C n then g c (?S c) else ?S c, r n ?S (?P n))"
    by (rule Suc.prems(1)) simp
  have U: "(\<Union>tid<Suc n. C tid) = (\<Union>tid<n. C tid) \<union> C n"
    by (auto simp: less_Suc_eq)
  show ?case
    unfolding each_item_Suc IH
    apply (simp only: prod.case c)
    apply (rule prod_eqI)
     apply (simp_all only: fst_conv snd_conv)
    subgoal using excl by (auto simp: fun_eq_iff U)
    subgoal using r by (auto simp: fun_eq_iff)
    done
qed

lemma fold_dst_eq:
  "fold (\<lambda>tid d. (\<lambda>i. if i \<in> D tid then h i else d i)) [0..<n] d0 =
     (\<lambda>i. if i \<in> (\<Union>tid<n. D tid) then h i else d0 i)"
proof (induction n)
  case 0
  show ?case by simp
next
  case (Suc n)
  have U: "(\<Union>tid<Suc n. D tid) = (\<Union>tid<n. D tid) \<union> D n"
    by (auto simp: less_Suc_eq)
  show ?case unfolding U using Suc.IH by (auto simp: fun_eq_iff)
qed

lemma lane_id_less: "lane_id tid < 32"
  by (simp add: lane_id_def WARP_SIZE_def)

lemma sub_group_max:
  fixes v :: "nat \<Rightarrow> 'a::linorder"
  shows "sub_group warp_reduce_max v tid = Max ((\<lambda>l. v (warp_id tid * WARP_SIZE + l)) ` {..<32})"
  unfolding sub_group_def by (rule warp_reduce_max_lanes[OF lane_id_less])

lemma sub_group_sum:
  fixes v :: "nat \<Rightarrow> 'a::comm_monoid_add"
  shows "sub_group warp_reduce_sum v tid = (\<Sum>l<32. v (warp_id tid * WARP_SIZE + l))"
  unfolding sub_group_def by (rule warp_reduce_sum_lanes[OF lane_id_less])

lemma buf_reset:
  "fold (\<lambda>tid b. if warp_id tid = 0 then b(lane_id tid := v) else b) [0..<n] buf =
     (\<lambda>l. if l < n \<and> l < 32 then v else buf l)"
proof (induction n)
  case 0
  show ?case by simp
next
  case (Suc n)
  show ?case
  proof (cases "n < 32")
    case True
    then have "warp_id n = 0" "lane_id n = n" by (simp_all add: warp_id_def lane_id_def WARP_SIZE_def)
    then show ?thesis using Suc.IH True by (auto simp: fun_eq_iff less_Suc_eq)
  next
    case False
    then have "warp_id n \<noteq> 0" by (simp add: warp_id_def WARP_SIZE_def)
    then show ?thesis using Suc.IH False by (auto simp: fun_eq_iff less_Suc_eq)
  qed
qed

lemma buf_store:
  "fold (\<lambda>tid b. if lane_id tid = 0 then b(warp_id tid := f tid) else b) [0..<n] buf =
     (\<lambda>w. if w * 32 < n then f (w * 32) else buf w)"
proof (induction n)
  case 0
  show ?case by simp
next
  case (Suc n)
  show ?case
  proof (cases "lane_id n = 0")
    case True
    then have n: "n = warp_id n * 32" by (auto simp: lane_id_def warp_id_def WARP_SIZE_def)
    have "w * 32 < Suc n \<longleftrightarrow> w * 32 < n \<or> w = warp_id n" for w
      using n by (auto simp: less_Suc_eq)
    then show ?thesis using Suc.IH True n by (auto simp: fun_eq_iff)
  next
    case False
    have "w * 32 < Suc n \<longleftrightarrow> w * 32 < n" for w
      using False by (auto simp: less_Suc_eq lane_id_def WARP_SIZE_def)
    then show ?thesis using Suc.IH False by (auto simp: fun_eq_iff)
  qed
qed

lemma thread_cols_item:
  assumes "0 < n" "tid < n" "ct = 0 \<or> n dvd ncols"
  shows "set (thread_cols ct ncols n tid 0) = item_cols ncols n tid"
    and "distinct (thread_cols ct ncols n tid 0)"
  using thread_cols_set[OF assms(1,2) _ assms(3), of 0] by (simp_all add: item_cols_def)

lemma item_cols_disjoint: "i \<noteq> j \<Longrightarrow> item_cols ncols n i \<inter> item_cols ncols n j = {}"
  by (auto simp: item_cols_def)

lemma item_cols_Union: "0 < n \<Longrightarrow> (\<Union>tid<n. item_cols ncols n tid) = {..<ncols}"
  by (auto simp: item_cols_def)

lemma item_cols_finite [simp]: "finite (item_cols ncols n tid)"
  by (simp add: item_cols_def)

lemma item_cols_outside: "0 < n \<Longrightarrow> n \<le> tid \<Longrightarrow> item_cols ncols n tid = {}"
proof -
  assume "0 < n" "n \<le> tid"
  then have "c mod n \<noteq> tid" for c
    by (metis mod_less_divisor not_le)
  then show ?thesis by (auto simp: item_cols_def)
qed

lemma first_loops:
  assumes "0 < n" "ct = 0 \<or> n dvd ncols"
  shows "each_item n (\<lambda>tid. max_loop val (thread_cols ct ncols n tid 0)) (vals0, \<lambda>tid. None) =
           (\<lambda>c. if c < ncols then val c else vals0 c, item_max val ncols n)"
proof -
  let ?r = "\<lambda>tid (s::nat \<Rightarrow> real) (p::real option).
              fold (\<lambda>col m. max m (Some (val col))) (thread_cols ct ncols n tid 0) p"
  have "each_item n (\<lambda>tid. max_loop val (thread_cols ct ncols n tid 0)) (vals0, \<lambda>tid. None) =
          (\<lambda>c. if c \<in> (\<Union>tid<n. item_cols ncols n tid) then val c else vals0 c,
           \<lambda>tid. if tid < n then ?r tid vals0 None else None)"
  proof (rule each_item_owned[where g = "\<lambda>c v. val c" and r = ?r])
    fix tid s p assume "tid < n"
    then show "max_loop val (thread_cols ct ncols n tid 0) (s, p) =
        (\<lambda>c. if c \<in> item_cols ncols n tid then val c else s c, ?r tid s p)"
      by (simp add: max_loop_eq thread_cols_item[OF assms(1) _ assms(2)])
  next
    fix tid s s' p show "?r tid s p = ?r tid s' p" ..
  next
    fix i j :: nat assume "i \<noteq> j"
    then show "item_cols ncols n i \<inter> item_cols ncols n j = {}" by (rule item_cols_disjoint)
  qed
  moreover have "(if tid < n then ?r tid vals0 None else None) = item_max val ncols n tid" for tid
  proof (cases "tid < n")
    case True
    have s: "set (thread_cols ct ncols n tid 0) = item_cols ncols n tid"
      by (rule thread_cols_item[OF assms(1) True assms(2)])
    then have e: "thread_cols ct ncols n tid 0 = [] \<longleftrightarrow> item_cols ncols n tid = {}"
      by (metis set_empty)
    have "max None (Some v) = Some v" for v :: real
      by (simp add: max_def)
    then show ?thesis using True
      by (simp add: fold_max_Some item_max_def e s)
  next
    case False
    then show ?thesis using item_cols_outside[OF assms(1), of tid ncols]
      by (simp add: item_max_def)
  qed
  ultimately show ?thesis
    by (simp add: item_cols_Union[OF assms(1)] fun_eq_iff)
qed

lemma block_max_eq:
  "block_max n n late (buf, m) =
     (if 32 < n then
        (\<lambda>w. if w * 32 < n then sub_group warp_reduce_max m (w * 32)
              else if w < n \<and> w < 32 then None else buf w,
         sub_group warp_reduce_max
           (\<lambda>tid. if late tid \<and> warp_id tid \<noteq> 0 then Some 0
                  else if lane_id tid * 32 < n then sub_group warp_reduce_max m (lane_id tid * 32)
                  else if lane_id tid < n \<and> lane_id tid < 32 then None else buf (lane_id tid)))
      else (buf, sub_group warp_reduce_max m))"
  by (simp add: block_max_def buf_reset buf_store Let_def WARP_SIZE_def)

lemma warp_lane:
  assumes "l < 32"
  shows "warp_id (warp_id tid * WARP_SIZE + l) = warp_id tid"
    and "lane_id (warp_id tid * WARP_SIZE + l) = l"
  using assms by (simp_all add: warp_id_def lane_id_def WARP_SIZE_def)

lemma warp_lane_less:
  assumes "32 dvd n" "tid < n" "l < 32"
  shows "warp_id tid * WARP_SIZE + l < n"
proof -
  from assms(1) obtain k where k: "n = 32 * k" by (auto simp: dvd_def)
  have "tid div 32 < k" using assms(2) k by (simp add: div_less_iff_less_mult mult.commute)
  then have "32 * (tid div 32 + 1) \<le> 32 * k" by (simp del: mult_Suc_right)
  then show ?thesis using assms(3) k by (simp add: warp_id_def WARP_SIZE_def)
qed

lemma tid_warp_lane: "warp_id tid * WARP_SIZE + lane_id tid = tid"
  by (simp add: warp_id_def lane_id_def)

lemma item_max_le:
  assumes "0 < ncols"
  shows "item_max val ncols n t \<le> Some (Max (val ` {..<ncols}))"
proof (cases "item_cols ncols n t = {}")
  case True
  then show ?thesis by (simp add: item_max_def)
next
  case False
  have "Max (val ` item_cols ncols n t) \<le> Max (val ` {..<ncols})"
    by (rule Max_mono) (use False in \<open>auto simp: item_cols_def\<close>)
  then show ?thesis using False by (simp add: item_max_def)
qed

lemma item_max_attained:
  assumes "0 < ncols" "0 < n"
  shows "\<exists>t<n. item_max val ncols n t = Some (Max (val ` {..<ncols}))"
proof -
  have "Max (val ` {..<ncols}) \<in> val ` {..<ncols}"
    by (rule Max_in) (use assms(1) in auto)
  then obtain c where c: "c < ncols" "val c = Max (val ` {..<ncols})" by auto
  let ?t = "c mod n"
  have in_c: "c \<in> item_cols ncols n ?t" using c by (simp add: item_cols_def)
  then have ne: "item_cols ncols n ?t \<noteq> {}" by auto
  have "val c \<le> Max (val ` item_cols ncols n ?t)"
    by (rule Max_ge) (use in_c in auto)
  then have "Some (Max (val ` {..<ncols})) \<le> item_max val ncols n ?t"
    using ne c by (simp add: item_max_def)
  then have "item_max val ncols n ?t = Some (Max (val ` {..<ncols}))"
    using item_max_le[OF assms(1), of val n ?t] by simp
  moreover have "?t < n" using assms(2) by simp
  ultimately show ?thesis by blast
qed

lemma item_max_0:
  assumes "0 < ncols" "0 < n"
  shows "item_max val ncols n 0 \<noteq> None"
proof -
  have "0 \<in> item_cols ncols n 0" using assms by (simp add: item_cols_def)
  then show ?thesis by (auto simp: item_max_def)
qed

lemma sub_group_max_ge:
  fixes v :: "nat \<Rightarrow> 'a::linorder"
  assumes "l < 32"
  shows "v (warp_id tid * WARP_SIZE + l) \<le> sub_group warp_reduce_max v tid"
  unfolding sub_group_max by (rule Max_ge) (use assms in auto)

lemma sub_group_max_le:
  fixes v :: "nat \<Rightarrow> 'a::linorder"
  assumes "\<And>l. l < 32 \<Longrightarrow> v (warp_id tid * WARP_SIZE + l) \<le> b"
  shows "sub_group warp_reduce_max v tid \<le> b"
proof -
  have "{..<32::nat} \<noteq> {}" by (simp add: lessThan_empty_iff)
  then show ?thesis
    unfolding sub_group_max by (intro Max.boundedI) (use assms in auto)
qed

lemma sub_group_max_self:
  fixes v :: "nat \<Rightarrow> 'a::linorder"
  shows "v tid \<le> sub_group warp_reduce_max v tid"
  using sub_group_max_ge[OF lane_id_less[of tid], of v tid] by (simp add: tid_warp_lane)

text \<open>Some work-item of the block holds the maximum, whatever the order of the reads.\<close>

lemma block_max_not_None:
  assumes "32 dvd n" "0 < n" "0 < ncols" "tid < n"
  shows "snd (block_max n n late (buf, item_max val ncols n)) tid \<noteq> None"
proof -
  let ?m = "item_max val ncols n"
  have w0: "sub_group warp_reduce_max ?m 0 \<noteq> None"
  proof -
    have "?m 0 \<le> sub_group warp_reduce_max ?m 0" by (rule sub_group_max_self)
    then show ?thesis using item_max_0[OF assms(3,2), of val]
      by (cases "?m 0"; cases "sub_group warp_reduce_max ?m 0") auto
  qed
  show ?thesis
  proof (cases "32 < n")
    case False
    then have "n = 32" using assms(1,2) by (auto simp: dvd_def)
    then have "warp_id tid = 0" using assms(4) by (simp add: warp_id_def WARP_SIZE_def)
    then have "sub_group warp_reduce_max ?m tid = sub_group warp_reduce_max ?m 0"
      by (simp add: sub_group_max warp_id_def)
    then show ?thesis using False w0 by (simp add: block_max_eq)
  next
    case big: True
    let ?r = "\<lambda>tid. if late tid \<and> warp_id tid \<noteq> 0 then Some 0
                  else if lane_id tid * 32 < n then sub_group warp_reduce_max ?m (lane_id tid * 32)
                  else if lane_id tid < n \<and> lane_id tid < 32 then None else buf (lane_id tid)"
    have "?r (warp_id tid * WARP_SIZE + 0) \<le> sub_group warp_reduce_max ?r tid"
      by (rule sub_group_max_ge) simp
    moreover have "?r (warp_id tid * WARP_SIZE + 0) \<noteq> None"
      using w0 assms(2) by (simp add: warp_lane[of 0 tid, simplified])
    ultimately have "sub_group warp_reduce_max ?r tid \<noteq> None"
      by (cases "?r (warp_id tid * WARP_SIZE + 0)"; cases "sub_group warp_reduce_max ?r tid") auto
    then show ?thesis using big by (simp add: block_max_eq)
  qed
qed

lemma block_max_in_order:
  assumes "32 dvd n" "0 < n" "n \<le> 1024" "0 < ncols"
    and late: "\<And>l. l < 32 \<Longrightarrow> warp_id tid \<noteq> 0 \<Longrightarrow> \<not> late (warp_id tid * WARP_SIZE + l)"
    and "tid < n"
  shows "snd (block_max n n late (buf, item_max val ncols n)) tid = Some (Max (val ` {..<ncols}))"
proof -
  let ?m = "item_max val ncols n"
  let ?M = "Some (Max (val ` {..<ncols}))"
  have w_le: "sub_group warp_reduce_max ?m t \<le> ?M" for t
    by (rule sub_group_max_le) (rule item_max_le[OF assms(4)])
  obtain ts where ts: "ts < n" "?m ts = ?M"
    using item_max_attained[OF assms(4,2)] by blast
  have w_ts: "sub_group warp_reduce_max ?m t = ?M" if "warp_id t = warp_id ts" for t
  proof -
    have "?m (warp_id t * WARP_SIZE + lane_id ts) \<le> sub_group warp_reduce_max ?m t"
      by (rule sub_group_max_ge[OF lane_id_less[of ts]])
    then have "?M \<le> sub_group warp_reduce_max ?m t"
      using that ts(2) by (simp add: tid_warp_lane)
    then show ?thesis using w_le[of t] by simp
  qed
  show ?thesis
  proof (cases "32 < n")
    case False
    then have n: "n = 32" using assms(1,2) by (auto simp: dvd_def)
    have "warp_id tid = warp_id ts" using n ts(1) \<open>tid < n\<close> by (simp add: warp_id_def WARP_SIZE_def)
    then show ?thesis using False by (simp add: block_max_eq w_ts)
  next
    case big: True
    let ?r = "\<lambda>tid. if late tid \<and> warp_id tid \<noteq> 0 then Some 0
                  else if lane_id tid * 32 < n then sub_group warp_reduce_max ?m (lane_id tid * 32)
                  else if lane_id tid < n \<and> lane_id tid < 32 then None else buf (lane_id tid)"
    have r: "?r (warp_id tid * WARP_SIZE + l) =
               (if l * 32 < n then sub_group warp_reduce_max ?m (l * 32) else None)" if "l < 32" for l
    proof -
      have "warp_id (warp_id tid * WARP_SIZE + l) \<noteq> 0 \<longrightarrow> \<not> late (warp_id tid * WARP_SIZE + l)"
        using late[OF that] by (simp add: warp_lane[OF that])
      then show ?thesis using that big by (auto simp: warp_lane[OF that])
    qed
    have le: "sub_group warp_reduce_max ?r tid \<le> ?M"
    proof (rule sub_group_max_le)
      fix l :: nat assume "l < 32"
      then show "?r (warp_id tid * WARP_SIZE + l) \<le> ?M"
        unfolding r[OF \<open>l < 32\<close>] using w_le by simp
    qed
    have l32: "warp_id ts < 32" using ts(1) assms(3) by (simp add: warp_id_def WARP_SIZE_def)
    have "warp_id ts * 32 \<le> ts" by (simp add: warp_id_def WARP_SIZE_def)
    then have lt: "warp_id ts * 32 < n" using ts(1) by simp
    have "warp_id (warp_id ts * 32) = warp_id ts" by (simp add: warp_id_def WARP_SIZE_def)
    then have "?r (warp_id tid * WARP_SIZE + warp_id ts) = ?M"
      unfolding r[OF l32] using lt by (simp add: w_ts)
    moreover have "?r (warp_id tid * WARP_SIZE + warp_id ts) \<le> sub_group warp_reduce_max ?r tid"
      by (rule sub_group_max_ge[OF l32])
    ultimately have "?M \<le> sub_group warp_reduce_max ?r tid" by simp
    then have "sub_group warp_reduce_max ?r tid = ?M" using le by simp
    then show ?thesis using big by (simp add: block_max_eq)
  qed
qed

text \<open>A sub-group other than 0 whose work-items all read late takes 0 for the maximum.\<close>

lemma block_max_late:
  assumes "32 < n"
    and late: "\<And>l. l < 32 \<Longrightarrow> late (warp_id tid * WARP_SIZE + l)"
    and "warp_id tid \<noteq> 0"
  shows "snd (block_max n n late (buf, m)) tid = Some 0"
proof -
  let ?r = "\<lambda>tid. if late tid \<and> warp_id tid \<noteq> 0 then Some 0
                else if lane_id tid * 32 < n then sub_group warp_reduce_max m (lane_id tid * 32)
                else if lane_id tid < n \<and> lane_id tid < 32 then None else buf (lane_id tid)"
  have "(\<lambda>l. ?r (warp_id tid * WARP_SIZE + l)) ` {..<32} = (\<lambda>l. Some 0) ` {..<32::nat}"
    by (rule image_cong[OF refl]) (use late assms(3) in \<open>simp add: warp_lane\<close>)
  also have "\<dots> = {Some 0}" by (simp add: image_constant_conv lessThan_empty_iff)
  finally have "sub_group warp_reduce_max ?r tid = Some 0"
    by (simp only: sub_group_max Max_singleton)
  then show ?thesis using assms(1) by (simp add: block_max_eq)
qed

lemma second_loops:
  assumes "0 < n" "ct = 0 \<or> n dvd ncols"
  shows "each_item n (\<lambda>tid. exp_loop (mx tid) (thread_cols ct ncols n tid 0)) (vals, \<lambda>tid. 0) =
           (\<lambda>c. if c < ncols then exp (vals c - mx (c mod n)) else vals c,
            \<lambda>tid. \<Sum>c\<in>item_cols ncols n tid. exp (vals c - mx tid))"
proof -
  let ?r = "\<lambda>tid (s::nat \<Rightarrow> real) (p::real). p + (\<Sum>c\<in>item_cols ncols n tid. exp (s c - mx tid))"
  have "each_item n (\<lambda>tid. exp_loop (mx tid) (thread_cols ct ncols n tid 0)) (vals, \<lambda>tid. 0) =
          (\<lambda>c. if c \<in> (\<Union>tid<n. item_cols ncols n tid) then exp (vals c - mx (c mod n)) else vals c,
           \<lambda>tid. if tid < n then ?r tid vals 0 else 0)"
  proof (rule each_item_owned[where g = "\<lambda>c v. exp (v - mx (c mod n))" and r = ?r])
    fix tid s p assume t: "tid < n"
    have "(\<lambda>c. if c \<in> item_cols ncols n tid then exp (s c - mx tid) else s c)
        = (\<lambda>c. if c \<in> item_cols ncols n tid then exp (s c - mx (c mod n)) else s c)"
      by (auto simp: item_cols_def fun_eq_iff)
    then show "exp_loop (mx tid) (thread_cols ct ncols n tid 0) (s, p) =
        (\<lambda>c. if c \<in> item_cols ncols n tid then exp (s c - mx (c mod n)) else s c, ?r tid s p)"
      by (simp add: exp_loop_eq thread_cols_item[OF assms(1) t assms(2)])
  next
    fix tid s s' p assume "\<forall>c\<in>item_cols ncols n tid. s c = (s' c :: real)"
    then show "?r tid s p = ?r tid s' p" by simp
  next
    fix i j :: nat assume "i \<noteq> j"
    then show "item_cols ncols n i \<inter> item_cols ncols n j = {}" by (rule item_cols_disjoint)
  qed
  moreover have "(if tid < n then ?r tid vals 0 else 0) = (\<Sum>c\<in>item_cols ncols n tid. exp (vals c - mx tid))" for tid
    using item_cols_outside[OF assms(1), of tid ncols] by (cases "tid < n") simp_all
  ultimately show ?thesis
    by (simp add: item_cols_Union[OF assms(1)] fun_eq_iff)
qed

lemma sum_item_cols:
  fixes e :: "nat \<Rightarrow> real"
  assumes "0 < n"
  shows "(\<Sum>t<n. \<Sum>c\<in>item_cols ncols n t. e c) = (\<Sum>c<ncols. e c)"
proof -
  have "(\<Sum>t\<in>{..<n}. \<Sum>c\<in>{c \<in> {..<ncols}. c mod n = t}. e c) = sum e {..<ncols}"
    by (rule sum.group) (use assms in auto)
  moreover have "{c \<in> {..<ncols}. c mod n = t} = item_cols ncols n t" for t
    by (auto simp: item_cols_def)
  ultimately show ?thesis by simp
qed

lemma sum_warps:
  fixes f :: "nat \<Rightarrow> real"
  shows "(\<Sum>w<k. \<Sum>l<32. f (w * 32 + l)) = (\<Sum>t<32 * k. f t)"
proof (induction k)
  case 0
  show ?case by simp
next
  case (Suc k)
  have "{..<32 * Suc k} = {..<32 * k} \<union> {32 * k..<32 * k + 32}" by auto
  moreover have "{..<32 * k} \<inter> {32 * k..<32 * k + 32} = {}" by auto
  ultimately have "(\<Sum>t<32 * Suc k. f t) = (\<Sum>t<32 * k. f t) + (\<Sum>t\<in>{32 * k..<32 * k + 32}. f t)"
    by (simp add: sum.union_disjoint)
  also have "(\<Sum>t\<in>{32 * k..<32 * k + 32}. f t) = (\<Sum>l<32. f (k * 32 + l))"
    by (rule sum.reindex_bij_witness[where i = "\<lambda>l. k * 32 + l" and j = "\<lambda>t. t - k * 32"]) auto
  finally show ?case using Suc.IH by simp
qed

lemma block_sum_eq:
  assumes "32 dvd n" "0 < n" "n \<le> 1024"
  shows "\<exists>buf' s. block_sum n n (buf, tmp) = Some (buf', s) \<and> (\<forall>tid<n. s tid = (\<Sum>t<n. tmp t))"
proof -
  from assms(1) obtain k where k: "n = 32 * k" by (auto simp: dvd_def)
  have k32: "k \<le> 32" "0 < k" using assms(2,3) k by simp_all
  let ?w = "sub_group warp_reduce_sum tmp"
  show ?thesis
  proof (cases "32 < n")
    case False
    then have n: "n = 32" using assms(1,2) by (auto simp: dvd_def)
    have "?w tid = (\<Sum>t<n. tmp t)" if "tid < n" for tid
      using that n by (simp add: sub_group_sum warp_id_def WARP_SIZE_def)
    then show ?thesis using False by (simp add: block_sum_def WARP_SIZE_def)
  next
    case big: True
    let ?b = "\<lambda>w. if w * 32 < n then Some (?w (w * 32)) else if w < n \<and> w < 32 then Some 0 else buf w"
    have nn: "\<not> list_ex (\<lambda>tid. ?b (lane_id tid) = None) [0..<n]"
    proof -
      have "lane_id tid < n" for tid using big lane_id_less[of tid] by simp
      then show ?thesis using lane_id_less by (auto simp: list_ex_iff)
    qed
    have w: "?w (l * 32) = (\<Sum>j<32. tmp (l * 32 + j))" for l
      by (simp add: sub_group_sum warp_id_def WARP_SIZE_def)
    have "(\<Sum>l<32. the (?b (lane_id (warp_id tid * WARP_SIZE + l)))) = (\<Sum>t<n. tmp t)" for tid
    proof -
      have "(\<Sum>l<32. the (?b (lane_id (warp_id tid * WARP_SIZE + l)))) = (\<Sum>l<32. the (?b l))"
        by (rule sum.cong) (simp_all add: warp_lane)
      also have "\<dots> = (\<Sum>l<32. if l < k then (\<Sum>j<32. tmp (l * 32 + j)) else 0)"
        by (rule sum.cong) (use big k w in auto)
      also have "\<dots> = (\<Sum>l\<in>{..<32} \<inter> {l. l < k}. \<Sum>j<32. tmp (l * 32 + j))"
        by (simp add: sum.inter_restrict)
      also have "{..<32} \<inter> {l. l < k} = {..<k}" using k32 by auto
      also have "(\<Sum>l<k. \<Sum>j<32. tmp (l * 32 + j)) = (\<Sum>t<n. tmp t)"
        unfolding k by (rule sum_warps)
      finally show ?thesis .
    qed
    then show ?thesis using big nn
      by (simp add: block_sum_def buf_reset buf_store Let_def WARP_SIZE_def sub_group_sum[where v = "\<lambda>tid. the (_ tid)"])
  qed
qed

lemma soft_max_f32_max_eq:
  assumes "launch_ok ct bt n"
  shows "soft_max_f32_max ct bt a rowx n late mem =
     (let ncols = (if ct = 0 then arg_ncols_par a else ct);
          val = soft_max_val a ncols (alibi_slope a rowx) rowx
      in (\<lambda>c. if c < ncols then val c else mem_vals mem c,
          block_max n n late (mem_buf mem, item_max val ncols n)))"
proof -
  have bs: "(if bt = 0 then n else bt) = n" and n: "0 < n"
    and dv: "ct = 0 \<or> n dvd (if ct = 0 then arg_ncols_par a else ct)"
    using assms by (auto simp: launch_ok_def)
  show ?thesis
    unfolding soft_max_f32_max_def Let_def bs first_loops[OF n dv]
    by (simp split: prod.splits)
qed

lemma fold_scale_loops:
  assumes "0 < n" "ct = 0 \<or> n dvd ncols"
  shows "fold (\<lambda>tid. scale_loop rowx ncols vals (inv_sum tid) (thread_cols ct ncols n tid 0)) [0..<n] dst =
           (\<lambda>i. if rowx * ncols \<le> i \<and> i < rowx * ncols + ncols
                 then vals (i - rowx * ncols) * inv_sum ((i - rowx * ncols) mod n) else dst i)"
proof -
  let ?D = "\<lambda>tid. (\<lambda>c. rowx * ncols + c) ` item_cols ncols n tid"
  let ?h = "\<lambda>i. vals (i - rowx * ncols) * inv_sum ((i - rowx * ncols) mod n)"
  have "fold (\<lambda>tid. scale_loop rowx ncols vals (inv_sum tid) (thread_cols ct ncols n tid 0)) [0..<n] dst
      = fold (\<lambda>tid d. (\<lambda>i. if i \<in> ?D tid then ?h i else d i)) [0..<n] dst"
  proof (rule List.fold_cong[OF refl refl])
    fix tid assume "tid \<in> set [0..<n]"
    then have t: "tid < n" by simp
    show "scale_loop rowx ncols vals (inv_sum tid) (thread_cols ct ncols n tid 0)
        = (\<lambda>d i. if i \<in> ?D tid then ?h i else d i)"
      unfolding scale_loop_eq thread_cols_item[OF assms(1) t assms(2)]
      by (auto simp: fun_eq_iff item_cols_def)
  qed
  also have "\<dots> = (\<lambda>i. if i \<in> (\<Union>tid<n. ?D tid) then ?h i else dst i)"
    by (rule fold_dst_eq)
  also have "(\<Union>tid<n. ?D tid) = {i. rowx * ncols \<le> i \<and> i < rowx * ncols + ncols}"
  proof -
    have "(\<Union>tid<n. ?D tid) = (\<lambda>c. rowx * ncols + c) ` (\<Union>tid<n. item_cols ncols n tid)" by blast
    also have "\<dots> = (\<lambda>c. rowx * ncols + c) ` {..<ncols}"
      by (simp only: item_cols_Union[OF assms(1)])
    also have "\<dots> = {i. rowx * ncols \<le> i \<and> i < rowx * ncols + ncols}"
    proof (intro set_eqI iffI)
      fix i assume "i \<in> {i. rowx * ncols \<le> i \<and> i < rowx * ncols + ncols}"
      then have "i = rowx * ncols + (i - rowx * ncols)" "i - rowx * ncols < ncols" by auto
      then show "i \<in> (\<lambda>c. rowx * ncols + c) ` {..<ncols}" by blast
    qed auto
    finally show ?thesis .
  qed
  finally show ?thesis by simp
qed

lemma soft_max_f32_eq:
  assumes ok: "launch_ok ct bt n"
    and nc: "0 < (if ct = 0 then arg_ncols_par a else ct)"
  shows "map_option mem_dst (soft_max_f32 ct bt a rowx n late mem) =
     (let ncols = (if ct = 0 then arg_ncols_par a else ct);
          val = soft_max_val a ncols (alibi_slope a rowx) rowx;
          mx = (\<lambda>tid. the (snd (snd (soft_max_f32_max ct bt a rowx n late mem)) tid));
          e = (\<lambda>c. exp (val c - mx (c mod n)))
      in Some (\<lambda>i. if rowx * ncols \<le> i \<and> i < rowx * ncols + ncols
                    then e (i - rowx * ncols) / (\<Sum>c<ncols. e c) else mem_dst mem i))"
proof -
  define ncols where "ncols = (if ct = 0 then arg_ncols_par a else ct)"
  define val where "val = soft_max_val a ncols (alibi_slope a rowx) rowx"
  define vals1 where "vals1 = (\<lambda>c. if c < ncols then val c else mem_vals mem c)"
  define bm where "bm = block_max n n late (mem_buf mem, item_max val ncols n)"
  define mx where "mx = (\<lambda>tid. the (snd bm tid))"
  define e where "e = (\<lambda>c. exp (val c - mx (c mod n)))"
  define S where "S = (\<Sum>c<ncols. e c)"
  have bs: "(if bt = 0 then n else bt) = n" and n: "0 < n" and n32: "32 dvd n" and n1024: "n \<le> 1024"
    and dv: "ct = 0 \<or> n dvd ncols"
    using ok by (auto simp: launch_ok_def ncols_def)
  have nc': "0 < ncols" using nc by (simp add: ncols_def)
  have mx_eq: "soft_max_f32_max ct bt a rowx n late mem = (vals1, fst bm, snd bm)"
    unfolding soft_max_f32_max_eq[OF ok] Let_def ncols_def[symmetric] val_def[symmetric]
    by (simp add: vals1_def bm_def)
  have g1: "\<not> list_ex (\<lambda>tid. thread_cols ct ncols n tid 0 \<noteq> [] \<and> snd bm tid = None) [0..<n]"
    using block_max_not_None[OF n32 n nc', of _ late "mem_buf mem" val] by (simp add: list_ex_iff bm_def)
  define tmp3 where "tmp3 = (\<lambda>tid. \<Sum>c\<in>item_cols ncols n tid. e c)"
  define vals3 where "vals3 = (\<lambda>c. if c < ncols then e c else vals1 c)"
  have l2: "each_item n (\<lambda>tid. exp_loop (mx tid) (thread_cols ct ncols n tid 0)) (vals1, \<lambda>tid. 0) = (vals3, tmp3)"
  proof -
    have "(\<Sum>c\<in>item_cols ncols n tid. exp (vals1 c - mx tid)) = tmp3 tid" for tid
      unfolding tmp3_def by (rule sum.cong) (auto simp: item_cols_def vals1_def e_def)
    moreover have "(\<lambda>c. if c < ncols then exp (vals1 c - mx (c mod n)) else vals1 c) = vals3"
      by (auto simp: fun_eq_iff vals3_def vals1_def e_def)
    ultimately show ?thesis unfolding second_loops[OF n dv] by simp
  qed
  obtain buf4 s where bsum: "block_sum n n (fst bm, tmp3) = Some (buf4, s)"
    and s: "\<forall>tid<n. s tid = (\<Sum>t<n. tmp3 t)"
    using block_sum_eq[OF n32 n n1024] by blast
  have tot: "(\<Sum>t<n. tmp3 t) = S"
    unfolding tmp3_def S_def by (rule sum_item_cols[OF n])
  have Spos: "0 < S"
    unfolding S_def by (rule sum_pos) (use nc' in \<open>auto simp: e_def\<close>)
  have g2: "\<not> list_ex (\<lambda>tid. thread_cols ct ncols n tid 0 \<noteq> [] \<and> s tid = 0) [0..<n]"
    using s tot Spos by (auto simp: list_ex_iff)
  have dst: "fold (\<lambda>tid. scale_loop rowx ncols vals3 (1 / s tid) (thread_cols ct ncols n tid 0)) [0..<n] (mem_dst mem)
      = (\<lambda>i. if rowx * ncols \<le> i \<and> i < rowx * ncols + ncols then e (i - rowx * ncols) / S else mem_dst mem i)"
  proof -
    have "vals3 (i - rowx * ncols) * (1 / s ((i - rowx * ncols) mod n)) = e (i - rowx * ncols) / S"
      if "rowx * ncols \<le> i \<and> i < rowx * ncols + ncols" for i
    proof -
      have "(i - rowx * ncols) mod n < n" using n by simp
      then have "s ((i - rowx * ncols) mod n) = S" using s tot by simp
      moreover have "i - rowx * ncols < ncols" using that by auto
      ultimately show ?thesis by (simp add: vals3_def)
    qed
    then show ?thesis unfolding fold_scale_loops[OF n dv] by (auto simp: fun_eq_iff)
  qed
  have res: "soft_max_f32 ct bt a rowx n late mem =
          Some \<lparr> mem_vals = vals3, mem_buf = buf4,
                 mem_dst = (\<lambda>i. if rowx * ncols \<le> i \<and> i < rowx * ncols + ncols
                                 then e (i - rowx * ncols) / S else mem_dst mem i) \<rparr>"
    unfolding soft_max_f32_def Let_def bs ncols_def[symmetric] mx_eq
    using g1 g2 by (simp add: case_prod_beta l2[unfolded mx_def] bsum dst)
  have mx': "(\<lambda>tid. the (snd (snd (soft_max_f32_max ct bt a rowx n late mem)) tid)) = mx"
    by (simp add: mx_eq mx_def)
  show ?thesis
    unfolding Let_def ncols_def[symmetric] val_def[symmetric] mx' e_def[symmetric] S_def[symmetric] res
    by (simp only: e_def map_option_case option.case soft_max_mem.simps)
qed

lemma soft_max_f32_sycl_ok:
  "launch_ok (ncols_template (soft_max_f32_sycl ncols_x smem))
             (block_size_template (soft_max_f32_sycl ncols_x smem))
             (launch_block_dims (soft_max_f32_sycl ncols_x smem))
   \<and> (if ncols_template (soft_max_f32_sycl ncols_x smem) = 0 then ncols_x
        else ncols_template (soft_max_f32_sycl ncols_x smem)) = ncols_x"
  by (simp add: soft_max_f32_sycl_def nth_loop_32 launch_ok_def Let_def)

lemma soft_max_row_eq:
  assumes "0 < arg_ncols_par a"
  shows "map_option mem_dst (soft_max_row a smem rowx late mem) =
     (let ncols = arg_ncols_par a;
          n = launch_block_dims (soft_max_f32_sycl ncols smem);
          e = (\<lambda>c. exp (soft_max_v a rowx c - the (soft_max_row_max a smem rowx late mem (c mod n))))
      in Some (\<lambda>i. if rowx * ncols \<le> i \<and> i < rowx * ncols + ncols
                    then e (i - rowx * ncols) / (\<Sum>c<ncols. e c) else mem_dst mem i))"
proof -
  let ?l = "soft_max_f32_sycl (arg_ncols_par a) smem"
  have ok: "launch_ok (ncols_template ?l) (block_size_template ?l) (launch_block_dims ?l)"
    and nc: "(if ncols_template ?l = 0 then arg_ncols_par a else ncols_template ?l) = arg_ncols_par a"
    using soft_max_f32_sycl_ok[of "arg_ncols_par a" smem] by simp_all
  have pos: "0 < (if ncols_template ?l = 0 then arg_ncols_par a else ncols_template ?l)"
    unfolding nc by (rule assms)
  show ?thesis
    unfolding soft_max_row_def soft_max_row_max_def soft_max_v_def Let_def
      soft_max_f32_eq[OF ok pos] nc ..
qed

lemma soft_max_row_max_eq:
  "soft_max_row_max a smem rowx late mem =
     snd (block_max (launch_block_dims (soft_max_f32_sycl (arg_ncols_par a) smem))
                    (launch_block_dims (soft_max_f32_sycl (arg_ncols_par a) smem)) late
            (mem_buf mem, item_max (soft_max_v a rowx) (arg_ncols_par a)
                            (launch_block_dims (soft_max_f32_sycl (arg_ncols_par a) smem))))"
proof -
  let ?l = "soft_max_f32_sycl (arg_ncols_par a) smem"
  have ok: "launch_ok (ncols_template ?l) (block_size_template ?l) (launch_block_dims ?l)"
    and nc: "(if ncols_template ?l = 0 then arg_ncols_par a else ncols_template ?l) = arg_ncols_par a"
    using soft_max_f32_sycl_ok[of "arg_ncols_par a" smem] by simp_all
  show ?thesis
    unfolding soft_max_row_max_def soft_max_v_def Let_def soft_max_f32_max_eq[OF ok] nc by simp
qed

lemma soft_max_reference_sum:
  assumes "0 < ncols"
  shows "(\<Sum>c<ncols. soft_max_reference v ncols c) = 1"
proof -
  let ?S = "\<Sum>c<ncols. exp (v c - Max (v ` {..<ncols}))"
  have "0 < ?S" by (rule sum_pos) (use assms in auto)
  moreover have "(\<Sum>c<ncols. soft_max_reference v ncols c) = ?S / ?S"
    unfolding soft_max_reference_def by (rule sum_divide_distrib[symmetric])
  ultimately show ?thesis by simp
qed

text \<open>
  An execution in which no work-item reads late, and every launch of one sub-group, computes the
  softmax of the row.
\<close>

lemma soft_max_row_in_order:
  assumes nc: "0 < arg_ncols_par a"
    and late: "\<forall>tid<launch_block_dims (soft_max_f32_sycl (arg_ncols_par a) smem). warp_id tid \<noteq> 0 \<longrightarrow> \<not> late tid"
  shows "map_option mem_dst (soft_max_row a smem rowx late mem) =
     Some (\<lambda>i. if rowx * arg_ncols_par a \<le> i \<and> i < rowx * arg_ncols_par a + arg_ncols_par a
                then soft_max_reference (soft_max_v a rowx) (arg_ncols_par a) (i - rowx * arg_ncols_par a)
                else mem_dst mem i)"
proof -
  let ?l = "soft_max_f32_sycl (arg_ncols_par a) smem"
  let ?n = "launch_block_dims ?l"
  have ok: "launch_ok (ncols_template ?l) (block_size_template ?l) ?n"
    using soft_max_f32_sycl_ok[of "arg_ncols_par a" smem] by simp
  then have n: "32 dvd ?n" "0 < ?n" "?n \<le> 1024" by (simp_all add: launch_ok_def)
  have mx: "soft_max_row_max a smem rowx late mem tid = Some (Max (soft_max_v a rowx ` {..<arg_ncols_par a}))"
    if "tid < ?n" for tid
    unfolding soft_max_row_max_eq
  proof (rule block_max_in_order[OF n nc _ that])
    fix l :: nat assume "l < 32" "warp_id tid \<noteq> 0"
    then show "\<not> late (warp_id tid * WARP_SIZE + l)"
      using late warp_lane_less[OF n(1) that \<open>l < 32\<close>] warp_lane(1)[OF \<open>l < 32\<close>, of tid] by auto
  qed
  have mx': "the (soft_max_row_max a smem rowx late mem (c mod ?n)) = Max (soft_max_v a rowx ` {..<arg_ncols_par a})" for c
    using mx[of "c mod ?n"] n(2) by simp
  show ?thesis
    unfolding soft_max_row_eq[OF nc] Let_def mx' soft_max_reference_def ..
qed

text \<open>In every execution the elements that the kernel writes to a row sum to 1.\<close>

lemma soft_max_row_sum:
  assumes nc: "0 < arg_ncols_par a"
  shows "map_option (\<lambda>m. \<Sum>c<arg_ncols_par a. mem_dst m (rowx * arg_ncols_par a + c))
           (soft_max_row a smem rowx late mem) = Some 1"
proof -
  define n where "n = launch_block_dims (soft_max_f32_sycl (arg_ncols_par a) smem)"
  define e where "e = (\<lambda>c. exp (soft_max_v a rowx c - the (soft_max_row_max a smem rowx late mem (c mod n))))"
  define F where "F = (\<lambda>i. if rowx * arg_ncols_par a \<le> i \<and> i < rowx * arg_ncols_par a + arg_ncols_par a
                    then e (i - rowx * arg_ncols_par a) / (\<Sum>c<arg_ncols_par a. e c) else mem_dst mem i)"
  have eq: "map_option mem_dst (soft_max_row a smem rowx late mem) = Some F"
    unfolding soft_max_row_eq[OF nc] Let_def F_def e_def n_def ..
  have pos: "0 < (\<Sum>c<arg_ncols_par a. e c)"
    by (rule sum_pos) (use nc in \<open>auto simp: e_def\<close>)
  have "(\<Sum>c<arg_ncols_par a. F (rowx * arg_ncols_par a + c)) = (\<Sum>c<arg_ncols_par a. e c / (\<Sum>c<arg_ncols_par a. e c))"
    by (rule sum.cong) (simp_all add: F_def)
  also have "\<dots> = (\<Sum>c<arg_ncols_par a. e c) / (\<Sum>c<arg_ncols_par a. e c)"
    by (rule sum_divide_distrib[symmetric])
  also have "\<dots> = 1" using pos by simp
  finally have "map_option (\<lambda>f. \<Sum>c<arg_ncols_par a. f (rowx * arg_ncols_par a + c))
                  (map_option mem_dst (soft_max_row a smem rowx late mem)) = Some 1"
    unfolding eq by simp
  then show ?thesis by (simp only: option.map_comp comp_def)
qed

text \<open>The ALiBi slope, as long as the head index stays below \<open>2 ^ 30\<close>.\<close>

lemma sint_word32_of_nat:
  assumes "k < 2 ^ 31"
  shows "sint (word_of_nat k :: 32 word) = int k"
proof -
  have "- (2 ^ 31) \<le> int k" by (rule order_trans[of _ 0]) simp_all
  moreover have "int k < 2 ^ 31" using assms by simp
  ultimately have "sint (word_of_int (int k) :: 32 word) = int k" by (rule sint_word_of_int_32)
  then show ?thesis by simp
qed

lemma alibi_slope_eq:
  assumes "0 < arg_max_bias a" and h: "rowx div arg_nrows_y a < 2 ^ 30"
  shows "alibi_slope a rowx =
           (let h = rowx div arg_nrows_y a; n_head_log2 = unat (arg_n_head_log2 a)
            in if h < n_head_log2 then arg_m0 a ^ (h + 1) else arg_m1 a ^ (2 * (h - n_head_log2) + 1))"
proof -
  define hn where "hn = rowx div arg_nrows_y a"
  define L where "L = unat (arg_n_head_log2 a)"
  have hn: "hn < 2 ^ 30" using h by (simp add: hn_def)
  have Lw: "arg_n_head_log2 a = word_of_nat L" by (simp add: L_def)
  have uh: "unat (word_of_nat hn :: 32 word) = hn"
    using hn by (simp add: unat_of_nat)
  have lt: "(word_of_nat hn :: 32 word) < arg_n_head_log2 a \<longleftrightarrow> hn < L"
    by (simp add: word_less_nat_alt uh L_def)
  have s1: "sint (word_of_nat hn + 1 :: 32 word) = int (hn + 1)"
  proof -
    have "(word_of_nat hn + 1 :: 32 word) = word_of_nat (hn + 1)" by simp
    moreover have "hn + 1 < 2 ^ 31" using hn by simp
    ultimately show ?thesis by (simp only: sint_word32_of_nat)
  qed
  have s2: "sint (2 * (word_of_nat hn - arg_n_head_log2 a) + 1 :: 32 word) = int (2 * (hn - L) + 1)" if "L \<le> hn"
  proof -
    have "(2 * (word_of_nat hn - arg_n_head_log2 a) + 1 :: 32 word) = word_of_nat (2 * (hn - L) + 1)"
      using that by (simp add: Lw)
    moreover have "2 * (hn - L) + 1 < 2 ^ 31" using hn by simp
    ultimately show ?thesis by (simp only: sint_word32_of_nat)
  qed
  show ?thesis
  proof (cases "hn < L")
    case True
    then show ?thesis using assms(1) lt s1
      by (simp add: alibi_slope_def Let_def hn_def[symmetric] L_def[symmetric] del: of_nat_Suc of_nat_add)
  next
    case False
    then have "L \<le> hn" by simp
    from s2[OF this] False show ?thesis using assms(1) lt
      by (simp add: alibi_slope_def Let_def hn_def[symmetric] L_def[symmetric] del: of_nat_Suc of_nat_add of_nat_mult)
  qed
qed

lemma launch_64: "launch_block_dims (soft_max_f32_sycl 64 True) = 64"
  by (simp add: soft_max_f32_sycl_def nth_loop_32)

lemma ones_row_launch: "launch_block_dims (soft_max_f32_sycl (arg_ncols_par ones_row) True) = 64"
  by (simp add: ones_row_def launch_64)

lemma ones_row_v: "soft_max_v ones_row rowx c = 1"
  by (simp add: soft_max_v_def soft_max_val_def ones_row_def)

lemma ones_row_Max: "Max (soft_max_v ones_row rowx ` {..<64}) = 1"
  by (simp add: ones_row_v image_constant_conv lessThan_empty_iff)

lemma ones_row_max_first:
  assumes "tid < 32"
  shows "soft_max_row_max ones_row True 0 second_sub_group_late zero_mem tid = Some 1"
proof -
  have w: "warp_id tid = 0" using assms by (simp add: warp_id_def WARP_SIZE_def)
  have "snd (block_max 64 64 second_sub_group_late
               (mem_buf zero_mem, item_max (soft_max_v ones_row 0) 64 64)) tid
        = Some (Max (soft_max_v ones_row 0 ` {..<64}))"
    by (rule block_max_in_order) (use assms w in simp_all)
  then show ?thesis
    unfolding soft_max_row_max_eq ones_row_launch ones_row_Max by (simp add: ones_row_def)
qed

lemma ones_row_max_second:
  assumes "32 \<le> tid" "tid < 64"
  shows "soft_max_row_max ones_row True 0 second_sub_group_late zero_mem tid = Some 0"
proof -
  have w: "warp_id tid = 1" using assms by (simp add: warp_id_def WARP_SIZE_def)
  have "snd (block_max 64 64 second_sub_group_late
               (mem_buf zero_mem, item_max (soft_max_v ones_row 0) 64 64)) tid = Some 0"
    by (rule block_max_late) (simp_all add: w second_sub_group_late_def WARP_SIZE_def)
  then show ?thesis
    unfolding soft_max_row_max_eq ones_row_launch by (simp add: ones_row_def)
qed

lemma ones_row_exps:
  "(\<Sum>c<64. exp (soft_max_v ones_row 0 c
                   - the (soft_max_row_max ones_row True 0 second_sub_group_late zero_mem (c mod 64))))
     = 32 + 32 * exp 1"
proof -
  let ?e = "\<lambda>c. exp (soft_max_v ones_row 0 c
                   - the (soft_max_row_max ones_row True 0 second_sub_group_late zero_mem (c mod 64)))"
  have "{..<64::nat} = {..<32} \<union> {32..<64}" by auto
  moreover have "{..<32::nat} \<inter> {32..<64} = {}" by auto
  ultimately have "sum ?e {..<64} = sum ?e {..<32} + sum ?e {32..<64}"
    by (simp add: sum.union_disjoint)
  moreover have "sum ?e {..<32} = (\<Sum>c\<in>{..<32::nat}. 1)"
    by (rule sum.cong) (simp_all add: ones_row_v ones_row_max_first)
  moreover have "sum ?e {32..<64} = (\<Sum>c\<in>{32..<64::nat}. exp 1)"
    by (rule sum.cong) (simp_all add: ones_row_v ones_row_max_second)
  ultimately show ?thesis by simp
qed

text \<open>
  Claim C3: every output element of a row is \<open>exp (v col - rowmax)\<close> divided by the sum over the row
  of \<open>exp (v col - rowmax)\<close>. The kernel computes this when no work-item reads \<^verbatim>\<open>buf\<close> late
  (\<open>soft_max_row_in_order\<close>), but no barrier separates the read \<^verbatim>\<open>max_val = buf[lane_id]\<close> from the
  store \<^verbatim>\<open>buf[lane_id] = 0.f\<close> of sub-group 0 that follows it. For one row of 64 elements 1, run by
  two sub-groups, the execution in which the second sub-group reads after that store writes
  \<open>1 / (32 + 32 * exp 1)\<close> to \<^verbatim>\<open>dst[0]\<close>; the execution without a late read writes the softmax
  value \<open>1 / 64\<close>.
\<close>

theorem soft_max_f32_stale_max:
  "soft_max_dst ones_row True 0 second_sub_group_late zero_mem 0
     = Some (1 / (32 + 32 * exp 1))
   \<and> soft_max_dst ones_row True 0 in_order zero_mem 0 = Some (1 / 64)
   \<and> soft_max_reference (soft_max_v ones_row 0) (arg_ncols_par ones_row) 0 = 1 / 64
   \<and> 1 / (32 + 32 * exp 1) \<noteq> (1 / 64 :: real)"
proof (intro conjI)
  have nc: "0 < arg_ncols_par ones_row" by (simp add: ones_row_def)
  have n64: "arg_ncols_par ones_row = 64" by (simp add: ones_row_def)
  have late: "map_option mem_dst (soft_max_row ones_row True 0 second_sub_group_late zero_mem) =
          Some (\<lambda>i. if i < 64
                     then exp (soft_max_v ones_row 0 i
                               - the (soft_max_row_max ones_row True 0 second_sub_group_late zero_mem (i mod 64)))
                          / (32 + 32 * exp 1)
                     else mem_dst zero_mem i)"
    unfolding soft_max_row_eq[OF nc] Let_def n64 launch_64 ones_row_exps by (simp cong: if_cong)
  have "map_option (\<lambda>f. f 0) (map_option mem_dst (soft_max_row ones_row True 0 second_sub_group_late zero_mem))
      = Some (1 / (32 + 32 * exp 1))"
    unfolding late by (simp add: ones_row_v ones_row_max_first)
  then show "soft_max_dst ones_row True 0 second_sub_group_late zero_mem 0
      = Some (1 / (32 + 32 * exp 1))"
    by (simp only: soft_max_dst_def option.map_comp comp_def)
  show ref: "soft_max_reference (soft_max_v ones_row 0) (arg_ncols_par ones_row) 0 = 1 / 64"
    unfolding n64 soft_max_reference_def ones_row_Max by (simp add: ones_row_v)
  have ord: "map_option mem_dst (soft_max_row ones_row True 0 in_order zero_mem) =
     Some (\<lambda>i. if 0 * arg_ncols_par ones_row \<le> i \<and> i < 0 * arg_ncols_par ones_row + arg_ncols_par ones_row
                then soft_max_reference (soft_max_v ones_row 0) (arg_ncols_par ones_row) (i - 0 * arg_ncols_par ones_row)
                else mem_dst zero_mem i)"
    by (rule soft_max_row_in_order[OF nc]) (simp add: in_order_def)
  have "map_option (\<lambda>f. f 0) (map_option mem_dst (soft_max_row ones_row True 0 in_order zero_mem))
      = Some (1 / 64)"
    unfolding ord using ref nc by simp
  then show "soft_max_dst ones_row True 0 in_order zero_mem 0 = Some (1 / 64)"
    by (simp only: soft_max_dst_def option.map_comp comp_def)
  have "(1::real) < exp 1" by simp
  then show "1 / (32 + 32 * exp 1) \<noteq> (1 / 64 :: real)"
    by (simp add: field_simps)
qed

end
